theory Spec2Isabelle
  imports Main "HOL-Library.Char_ord" "HOL-Library.List_Lexorder"
begin

section \<open>Python strings and integers\<close>

text \<open>
  Records are ASCII text lines, modelled as \<open>string\<close> (a list of characters).
  The Python exceptions the corrector can raise are values of \<open>error\<close>;
  \<open>NonTermination\<close> stands for a loop that does not return.
\<close>

datatype error =
    ValueError
  | IndexError
  | AssertionError
  | ZeroDivisionError
  | UnboundLocalError
  | NonTermination

text \<open>Python's \<open>s[a:b]\<close> for constant bounds \<open>0 \<le> a \<le> b\<close>, and \<open>s[a:]\<close>.\<close>

definition slice :: "nat \<Rightarrow> nat \<Rightarrow> string \<Rightarrow> string" where
  "slice a b s = take (b - a) (drop a s)"

definition slice_from :: "nat \<Rightarrow> string \<Rightarrow> string" where
  "slice_from a s = drop a s"

text \<open>\<open>str.rjust(width, fillchar)\<close>.\<close>

definition rjust :: "nat \<Rightarrow> char \<Rightarrow> string \<Rightarrow> string" where
  "rjust w c s = replicate (w - length s) c @ s"

text \<open>ASCII whitespace as \<open>str.strip()\<close> sees it: codes 9-13, 28-31 and 32.\<close>

definition isspace :: "char \<Rightarrow> bool" where
  "isspace c = (let k = (of_char c :: nat) in (9 \<le> k \<and> k \<le> 13) \<or> (28 \<le> k \<and> k \<le> 32))"

definition strip :: "string \<Rightarrow> string" where
  "strip s = rev (dropWhile isspace (rev (dropWhile isspace s)))"

text \<open>\<open>str.replace(" ", "")\<close>.\<close>

definition remove_spaces :: "string \<Rightarrow> string" where
  "remove_spaces s = filter (\<lambda>c. c \<noteq> CHR '' '') s"

text \<open>Decimal rendering of an integer: \<open>str(n)\<close> and the \<open>d\<close> format.\<close>

definition digit_char :: "nat \<Rightarrow> char" where
  "digit_char d = char_of (48 + d)"

fun dec_nat :: "nat \<Rightarrow> string" where
  "dec_nat n = (if n < 10 then [digit_char n] else dec_nat (n div 10) @ [digit_char (n mod 10)])"

declare dec_nat.simps [simp del]

definition str_int :: "int \<Rightarrow> string" where
  "str_int i = (if i < 0 then CHR ''-'' # dec_nat (nat (- i)) else dec_nat (nat i))"

text \<open>
  \<open>int(s)\<close> on an ASCII string: surrounding whitespace is skipped, one sign is
  allowed, then decimal digits with single underscores between digits; anything else
  raises \<open>ValueError\<close>. The whitespace \<open>int()\<close> skips in an ASCII string is the
  codes 9-13 and 32 only: the separators 28-31, which \<open>str.strip()\<close> removes, make
  \<open>int()\<close> raise.
\<close>

definition int_space :: "char \<Rightarrow> bool" where
  "int_space c = (let k = (of_char c :: nat) in (9 \<le> k \<and> k \<le> 13) \<or> k = 32)"

definition int_strip :: "string \<Rightarrow> string" where
  "int_strip s = rev (dropWhile int_space (rev (dropWhile int_space s)))"

definition digit_val :: "char \<Rightarrow> int option" where
  "digit_val c = (let k = (of_char c :: nat) in
     if 48 \<le> k \<and> k \<le> 57 then Some (int k - 48) else None)"

fun parse_digits :: "string \<Rightarrow> int \<Rightarrow> bool \<Rightarrow> int option" where
  "parse_digits [] acc prev = (if prev then Some acc else None)"
| "parse_digits (c # cs) acc prev =
     (if c = CHR ''_'' then (if prev then parse_digits cs acc False else None)
      else (case digit_val c of
              None \<Rightarrow> None
            | Some d \<Rightarrow> parse_digits cs (10 * acc + d) True))"

definition py_int :: "string \<Rightarrow> error + int" where
  "py_int s =
     (let t = int_strip s;
          r = (case t of
                 [] \<Rightarrow> None
               | c # cs \<Rightarrow>
                   if c = CHR ''-'' then map_option uminus (parse_digits cs 0 False)
                   else if c = CHR ''+'' then parse_digits cs 0 False
                   else parse_digits t 0 False)
      in case r of None \<Rightarrow> Inl ValueError | Some v \<Rightarrow> Inr v)"

section \<open>The numeric codec (hybrid36)\<close>

definition digits_upper :: string where
  "digits_upper = ''0123456789ABCDEFGHIJKLMNOPQRSTUVWXYZ''"

definition digits_lower :: string where
  "digits_lower = ''0123456789abcdefghijklmnopqrstuvwxyz''"

text \<open>
  The \<open>while (value != 0)\<close> loop of \<open>encode_pure\<close>; \<open>result\<close> collects the digits
  least significant first. Python's \<open>//\<close> is floor division, as \<open>div\<close> on \<open>int\<close>.
  The loop does not return for a negative value or a one-letter alphabet, so it is a
  partial function: \<open>None\<close> is "does not return".
\<close>

partial_function (option) encode_pure_loop :: "string \<Rightarrow> int \<Rightarrow> string \<Rightarrow> string option" where
  "encode_pure_loop digits v result =
     (if v = 0 then Some result
      else let n = int (length digits); rest = v div n
           in encode_pure_loop digits rest (result @ [digits ! nat (v - rest * n)]))"

declare encode_pure_loop.simps [code]

text \<open>
  \<open>encode_pure\<close>: the assertion, the zero case (an index into \<open>digits\<close>), then the
  loop and the reversal. With an empty alphabet the first division of the loop raises
  \<open>ZeroDivisionError\<close>; with a positive length the index \<open>value - rest * n\<close> lies in
  \<open>[0, n)\<close>.
\<close>

definition encode_pure :: "string \<Rightarrow> int \<Rightarrow> error + string" where
  "encode_pure digits v =
     (if \<not> v \<ge> 0 then Inl AssertionError
      else if v = 0 then (case digits of [] \<Rightarrow> Inl IndexError | d # _ \<Rightarrow> Inr [d])
      else if length digits = 0 then Inl ZeroDivisionError
      else (case encode_pure_loop digits v [] of
              None \<Rightarrow> Inl NonTermination
            | Some result \<Rightarrow> Inr (rev result)))"

text \<open>
  \<open>number_to_hybrid36_number\<close>. The width is a natural number; the callers pass 4 and
  5. For width 0 Python's \<open>10**(width - 1)\<close> is a float, which is outside this model:
  every statement below is for \<open>width \<ge> 1\<close>.
\<close>

definition number_to_hybrid36_number :: "int \<Rightarrow> nat \<Rightarrow> error + string" where
  "number_to_hybrid36_number number width =
     (if number \<ge> 1 - 10 ^ (width - 1) then
        if number < 10 ^ width then Inr (rjust width (CHR '' '') (str_int number))
        else
          let number1 = number - 10 ^ width in
          if number1 < 26 * 36 ^ (width - 1) then
            encode_pure digits_upper (number1 + 10 * 36 ^ (width - 1))
          else
            let number2 = number1 - 26 * 36 ^ (width - 1) in
            if number2 < 26 * 36 ^ (width - 1) then
              encode_pure digits_lower (number2 + 10 * 36 ^ (width - 1))
            else Inl ValueError
      else Inl ValueError)"

text \<open>
  Positional numerals, to state what \<open>encode_pure\<close> computes: \<open>lsd b v\<close> is the list
  of the base-\<open>b\<close> digits of \<open>v\<close>, least significant first, and \<open>enc digits v\<close>
  spells \<open>v\<close> in the alphabet \<open>digits\<close>, most significant digit first.
\<close>

function lsd :: "nat \<Rightarrow> nat \<Rightarrow> nat list" where
  "lsd b v = (if v = 0 \<or> b < 2 then [] else (v mod b) # lsd b (v div b))"
  by pat_completeness auto
termination
  by (relation "measure snd") auto

declare lsd.simps [simp del]

definition enc :: "string \<Rightarrow> nat \<Rightarrow> string" where
  "enc digits v = map ((!) digits) (rev (lsd (length digits) v))"

text \<open>The decimal digit characters.\<close>

definition is_digit :: "char \<Rightarrow> bool" where
  "is_digit c = (\<exists>d<10. c = digit_char d)"

section \<open>The corrector\<close>

definition HEADER :: string where
  "HEADER = ''AUTHORS:     Martin, Casanal, Feigl        VERSION: 0.4.0'' @ [CHR 0x0A]"

definition NOMCLA :: "(string \<times> string) list" where
  "NOMCLA = [('' O1P'', '' OP1''), ('' O2P'', '' OP2''), ('' C5M'', '' C7 '')]"

definition NOMCLA_BASE :: "(string \<times> string) list" where
  "NOMCLA_BASE =
     [(''CYT'', '' DC''), (''GUA'', '' DG''), (''THY'', '' DT''),
      (''ADE'', '' DA''), (''DA5'', '' DA''), (''DA3'', '' DA''),
      (''DT5'', '' DT''), (''DT3'', '' DT''), (''DG5'', '' DG''),
      (''DG3'', '' DG''), (''DC5'', '' DC''), (''DC3'', '' DC'')]"

text \<open>The class \<open>Logic\<close>: eight flags, all enabled by default.\<close>

record Logic =
  nomenclature :: bool
  molecule_chain :: bool
  atom_number :: bool
  occupancy :: bool
  atomtype :: bool
  remove_H :: bool
  reset_numbers :: bool
  keep_header :: bool

definition Logic_default :: Logic where
  "Logic_default =
     \<lparr>nomenclature = True, molecule_chain = True, atom_number = True, occupancy = True,
      atomtype = True, remove_H = True, reset_numbers = True, keep_header = True\<rparr>"

text \<open>
  The dictionary \<open>self.current\<close> of a \<open>PDB_Corr\<close> object, with the keys of the source
  (\<open>cur_atom_number\<close> is the key \<open>"atom_number"\<close>, \<open>cur_chain\<close> the key \<open>"chain"\<close>),
  and the value \<open>__attrs_post_init__\<close> gives it when the object is created.
\<close>

record current =
  cur_atom_number :: int
  old_molecule_number :: int
  last_molecule_number :: int
  chain_id :: string
  chain_id_repeats :: int
  cur_chain :: "string option"

definition attrs_post_init :: current where
  "attrs_post_init =
     \<lparr>cur_atom_number = 1, old_molecule_number = 1, last_molecule_number = 1,
      chain_id = ''A'', chain_id_repeats = 1, cur_chain = None\<rparr>"

text \<open>\<open>correct_atom_number\<close>: the counter is encoded, then incremented.\<close>

definition correct_atom_number :: "current \<Rightarrow> string \<Rightarrow> error + (string \<times> current)" where
  "correct_atom_number cur line =
     (case number_to_hybrid36_number (cur_atom_number cur) 5 of
        Inl e \<Rightarrow> Inl e
      | Inr atom_number_string \<Rightarrow>
          Inr (slice 0 5 line @ '' '' @ atom_number_string @ slice_from 11 line,
               cur\<lparr>cur_atom_number := cur_atom_number cur + 1\<rparr>))"

definition correct_nomenclature :: "string \<Rightarrow> string" where
  "correct_nomenclature line =
     (let atom = slice 12 16 line;
          BLANK = replicate 4 (CHR '' '');
          atom = (if atom \<in> fst ` set NOMCLA
                  then (case map_of NOMCLA atom of None \<Rightarrow> BLANK | Some a \<Rightarrow> a)
                  else atom);
          base = slice 17 20 line;
          base = (if base \<in> fst ` set NOMCLA_BASE
                  then (case map_of NOMCLA_BASE base of None \<Rightarrow> BLANK | Some b \<Rightarrow> b)
                  else base)
      in slice 0 12 line @ atom @ '' '' @ base @ slice_from 20 line)"

definition correct_occupancy :: "string \<Rightarrow> string" where
  "correct_occupancy line = slice 0 54 line @ ''  1.00  '' @ slice_from 62 line"

text \<open>\<open>str.find\<close>: the lowest index where \<open>sub\<close> starts, or \<open>-1\<close>.\<close>

fun find_from :: "string \<Rightarrow> string \<Rightarrow> int \<Rightarrow> int" where
  "find_from [] sub i = (if sub = [] then i else - 1)"
| "find_from (c # cs) sub i =
     (if take (length sub) (c # cs) = sub then i else find_from cs sub (i + 1))"

definition str_find :: "string \<Rightarrow> string \<Rightarrow> int" where
  "str_find s sub = find_from s sub 0"

definition possible_chain_ids :: string where
  "possible_chain_ids = ''ABCDEFGHIJKLMNOPQRSTUVWXYZ''"

definition increase_chain_id :: "string \<Rightarrow> string" where
  "increase_chain_id current_chain_id =
     (let pos = str_find possible_chain_ids current_chain_id;
          chlen = int (length possible_chain_ids)
      in if pos + 1 < chlen then [possible_chain_ids ! nat (pos + 1)]
         else [possible_chain_ids ! 1])"

text \<open>
  \<open>correct_molecule_chain\<close> returns the new line, \<open>is_ter\<close> and the updated
  \<open>self.current\<close>. The three branches compute the new chain letter, the new residue
  number, \<open>is_ter\<close> and the repeat counter.
\<close>

definition correct_molecule_chain ::
    "current \<Rightarrow> string \<Rightarrow> bool \<Rightarrow> error + (string \<times> bool \<times> current)" where
  "correct_molecule_chain cur line reset =
     (let chain = slice 72 76 line;
          molecule_number_str = slice 22 26 line
      in (case py_int (remove_spaces molecule_number_str) of
           Inl e \<Rightarrow> Inl e
         | Inr molecule_number \<Rightarrow>
            (let (new_chain_id, new_molecule_number, is_ter, repeats) =
                  (if cur_chain cur = None then
                     (chain_id cur, 1, False, chain_id_repeats cur)
                   else if Some chain = cur_chain cur then
                     (if molecule_number = old_molecule_number cur then
                        (chain_id cur, last_molecule_number cur, False, chain_id_repeats cur)
                      else if molecule_number = old_molecule_number cur + 1 then
                        (chain_id cur, last_molecule_number cur + 1, False, chain_id_repeats cur)
                      else
                        (chain_id cur, last_molecule_number cur + 10, True, chain_id_repeats cur))
                   else
                     (increase_chain_id (chain_id cur), 1, True,
                      if chain_id cur = ''Z'' then chain_id_repeats cur + 1
                      else chain_id_repeats cur));
                new_chain_str = new_chain_id @ rjust 3 (CHR ''0'') (str_int repeats)
            in (case number_to_hybrid36_number
                      (if reset then new_molecule_number else molecule_number) 4 of
                 Inl e \<Rightarrow> Inl e
               | Inr new_molecule_number_str \<Rightarrow>
                   Inr (slice 0 21 line @ new_chain_id @ new_molecule_number_str
                          @ slice 26 67 line @ replicate 5 (CHR '' '') @ new_chain_str
                          @ slice_from 76 line,
                        is_ter,
                        cur\<lparr>chain_id := new_chain_id,
                            chain_id_repeats := repeats,
                            cur_chain := Some chain,
                            old_molecule_number := molecule_number,
                            last_molecule_number := new_molecule_number\<rparr>)))))"

text \<open>The method \<open>remove_H\<close> (the flag of \<open>Logic\<close> has the name).\<close>

definition remove_H_line :: "string \<Rightarrow> string" where
  "remove_H_line line =
     (let atom = slice 12 16 line in if CHR ''H'' \<in> set atom then [] else line)"

text \<open>\<open>correct_atomtype\<close>: \<open>atom[1]\<close> raises \<open>IndexError\<close> on a line of fewer than 14 characters.\<close>

definition correct_atomtype :: "string \<Rightarrow> error + string" where
  "correct_atomtype line =
     (let atom = slice 12 14 line in
      if length atom < 2 then Inl IndexError
      else
        let atom = (if atom ! 1 \<in> set ''0123456789'' then [atom ! 0] else atom);
            atom = rjust 2 (CHR '' '') (strip atom)
        in Inr (slice 0 76 line @ atom @ slice_from 78 line))"

text \<open>
  The corrections \<open>correct_pdb\<close> applies to an atom record, in the order of the source
  (lines 118 to 132). \<open>is_ter\<close> is a local variable of \<open>correct_pdb\<close>, assigned only
  by the chain correction: \<open>None\<close> is the unbound variable.
\<close>

definition TER :: string where
  "TER = ''TER'' @ [CHR 0x0A]"

definition correct_atom ::
    "Logic \<Rightarrow> string \<Rightarrow> current \<Rightarrow> bool option
       \<Rightarrow> error + (string \<times> bool option \<times> current)" where
  "correct_atom logic line cur is_ter =
     (let line1 = (if nomenclature logic then correct_nomenclature line else line) in
      (case (if molecule_chain logic
             then (case correct_molecule_chain cur line1 (reset_numbers logic) of
                     Inl e \<Rightarrow> Inl e
                   | Inr (l, t, c) \<Rightarrow> Inr (l, Some t, c))
             else Inr (line1, is_ter, cur)) of
         Inl e \<Rightarrow> Inl e
       | Inr (line2, is_ter2, cur2) \<Rightarrow>
          (case (if atom_number logic then correct_atom_number cur2 line2
                 else Inr (line2, cur2)) of
             Inl e \<Rightarrow> Inl e
           | Inr (line3, cur3) \<Rightarrow>
              (let line4 = (if occupancy logic then correct_occupancy line3 else line3) in
               (case (if atomtype logic then correct_atomtype line4 else Inr line4) of
                  Inl e \<Rightarrow> Inl e
                | Inr line5 \<Rightarrow>
                    Inr (if remove_H logic then remove_H_line line5 else line5,
                         is_ter2, cur3))))))"

text \<open>
  One round of the \<open>for\<close> loop of \<open>correct_pdb\<close>. The loop carries \<open>self.current\<close>,
  \<open>is_ter\<close> and the list \<open>body\<close>; reading the unbound \<open>is_ter\<close> raises
  \<open>UnboundLocalError\<close>.
\<close>

definition correct_pdb_step ::
    "Logic \<Rightarrow> string \<Rightarrow> current \<times> bool option \<times> string list
       \<Rightarrow> error + (current \<times> bool option \<times> string list)" where
  "correct_pdb_step logic line st =
     (case st of (cur, is_ter, body) \<Rightarrow>
       (let lineType = slice 0 6 line in
        if lineType \<in> set [''TITLE '', ''CRYST1''] then Inr (cur, is_ter, body @ [line])
        else if lineType = ''ATOM  '' then
          (let no_atom_check = slice 13 15 line in
           if \<not> (no_atom_check = ''  '') then
             (case correct_atom logic line cur is_ter of
                Inl e \<Rightarrow> Inl e
              | Inr (line6, is_ter2, cur3) \<Rightarrow>
                 (case is_ter2 of
                    None \<Rightarrow> Inl UnboundLocalError
                  | Some t \<Rightarrow>
                      Inr (cur3, is_ter2, body @ (if t then [TER] else []) @ [line6])))
           else Inr (cur, is_ter, body))
        else Inr (cur, is_ter, body)))"

fun correct_pdb_loop ::
    "Logic \<Rightarrow> string list \<Rightarrow> current \<times> bool option \<times> string list
       \<Rightarrow> error + (current \<times> bool option \<times> string list)" where
  "correct_pdb_loop logic [] st = Inr st"
| "correct_pdb_loop logic (line # pdb_file) st =
     (case correct_pdb_step logic line st of
        Inl e \<Rightarrow> Inl e
      | Inr st' \<Rightarrow> correct_pdb_loop logic pdb_file st')"

text \<open>
  \<open>correct_pdb\<close> on a corrector whose dictionary is \<open>cur\<close>: \<open>correct_pdb_body\<close> is the
  list \<open>body\<close> at the \<open>return\<close>, with the dictionary the call leaves behind;
  \<open>correct_pdb\<close> joins it. When a correction raises, the model gives the error alone:
  the dictionary a failed call leaves behind is not modelled.
\<close>

definition correct_pdb_body ::
    "current \<Rightarrow> string list \<Rightarrow> Logic \<Rightarrow> error + (string list \<times> current)" where
  "correct_pdb_body cur pdb_file logic =
     (let body = (if keep_header logic then [HEADER] else []) in
      case correct_pdb_loop logic pdb_file (cur, None, body) of
        Inl e \<Rightarrow> Inl e
      | Inr (cur', is_ter, body') \<Rightarrow> Inr (body' @ [TER @ ''END'' @ [CHR 0x0A]], cur'))"

definition correct_pdb :: "current \<Rightarrow> string list \<Rightarrow> Logic \<Rightarrow> error + (string \<times> current)" where
  "correct_pdb cur pdb_file logic =
     (case correct_pdb_body cur pdb_file logic of
        Inl e \<Rightarrow> Inl e
      | Inr (body, cur') \<Rightarrow> Inr (concat body, cur'))"

section \<open>Records and predicates used in the statements\<close>

text \<open>The tests of \<open>correct_pdb\<close> on a line: an atom record, and one that is not skipped.\<close>

definition is_atom_record :: "string \<Rightarrow> bool" where
  "is_atom_record line = (slice 0 6 line = ''ATOM  '')"

definition is_processed :: "string \<Rightarrow> bool" where
  "is_processed line = (is_atom_record line \<and> slice 13 15 line \<noteq> ''  '')"

text \<open>The test of \<open>remove_H\<close>: the atom name contains the letter H.\<close>

definition is_hydrogen :: "string \<Rightarrow> bool" where
  "is_hydrogen line = (CHR ''H'' \<in> set (slice 12 16 line))"

text \<open>The state invariant: the chain letter is one of the 26 letters.\<close>

definition valid_chain_id :: "string \<Rightarrow> bool" where
  "valid_chain_id c = (\<exists>i<26. c = [possible_chain_ids ! i])"

text \<open>
  Example records, 80 columns and a newline: a phosphorus atom, two hydrogens (the
  second of another segment), a record with an alternate-location letter in column 16,
  and a record whose one-letter atom name stands in column 12.
\<close>

definition rec_P :: string where
  "rec_P = ''ATOM      7  P   ADE X  12      11.104   6.134  -6.504  0.00  0.00      S001 P  '' @ [CHR 0x0A]"

definition rec_H :: string where
  "rec_H = ''ATOM      9  H61 ADE X  14      11.104   6.134  -6.504  0.00  0.00      S001 H  '' @ [CHR 0x0A]"

definition rec_H2 :: string where
  "rec_H2 = ''ATOM     10  H2  THY X   1      11.104   6.134  -6.504  0.00  0.00      S002 H  '' @ [CHR 0x0A]"

definition rec_alt :: string where
  "rec_alt = ''ATOM      7  P  A DA X  12      11.104   6.134  -6.504  0.00  0.00      S001 P  '' @ [CHR 0x0A]"

definition rec_left :: string where
  "rec_left = ''ATOM      7 C     DA X  12      11.104   6.134  -6.504  0.00  0.00      S001 C  '' @ [CHR 0x0A]"

text \<open>
  The rule of the spec for a record of the same segment as the previous one: from the
  previous input residue number, the previous output residue number and the input
  residue number of the record, the output residue number and the terminator mark.
\<close>

definition spec_same_segment :: "int \<Rightarrow> int \<Rightarrow> int \<Rightarrow> int \<times> bool" where
  "spec_same_segment prev_in prev_out m =
     (if m = prev_in then (prev_out, False)
      else if m = prev_in + 1 then (prev_out + 1, False)
      else (prev_out + 10, True))"

text \<open>The dictionary of a fresh corrector after a pass over \<open>rec_P\<close> alone.\<close>

definition cur_after_P :: current where
  "cur_after_P =
     \<lparr>cur_atom_number = 2, old_molecule_number = 12, last_molecule_number = 1,
      chain_id = ''A'', chain_id_repeats = 1, cur_chain = Some ''S001''\<rparr>"

text \<open>
  The serials a pass gives out: the counter starts at \<open>a\<close>, every processed atom record
  takes the next value, and the value appears in the output unless hydrogen removal
  drops the record. \<open>serial_fields\<close> reads the serial columns \<open>[6,11)\<close> of the atom
  records of an output.
\<close>

fun serials :: "Logic \<Rightarrow> int \<Rightarrow> string list \<Rightarrow> int list" where
  "serials logic a [] = []"
| "serials logic a (line # pdb_file) =
     (if is_processed line
      then (if remove_H logic \<and> is_hydrogen line then [] else [a]) @ serials logic (a + 1) pdb_file
      else serials logic a pdb_file)"

definition serial_fields :: "string list \<Rightarrow> (error + string) list" where
  "serial_fields body = map (\<lambda>l. Inr (slice 6 11 l)) (filter is_atom_record body)"

text \<open>A third example record: an oxygen of the residue of \<open>rec_H\<close>.\<close>

definition rec_O :: string where
  "rec_O = ''ATOM     11  O1P ADE X  14      11.104   6.134  -6.504  0.00  0.00      S001 O  '' @ [CHR 0x0A]"

section \<open>Properties of the codec\<close>

lemma length_digits_upper: "length digits_upper = 36"
  by (simp add: digits_upper_def)

lemma length_digits_lower: "length digits_lower = 36"
  by (simp add: digits_lower_def)

lemma sorted_digits_upper: "sorted_wrt (<) digits_upper"
  by (simp add: digits_upper_def)

lemma sorted_digits_lower: "sorted_wrt (<) digits_lower"
  by (simp add: digits_lower_def)

subsection \<open>Decimal rendering and parsing\<close>

lemma of_char_digit_char: "d < 10 \<Longrightarrow> (of_char (digit_char d) :: nat) = 48 + d"
  by (simp add: digit_char_def)

lemma digit_val_digit_char: "d < 10 \<Longrightarrow> digit_val (digit_char d) = Some (int d)"
  by (simp add: digit_val_def of_char_digit_char)

lemma digit_char_not_space: "d < 10 \<Longrightarrow> \<not> int_space (digit_char d)"
  by (simp add: int_space_def of_char_digit_char)

lemma digit_char_neq:
  assumes "d < 10"
  shows "digit_char d \<noteq> CHR ''_''" "digit_char d \<noteq> CHR ''-''" "digit_char d \<noteq> CHR ''+''"
    "digit_char d \<noteq> CHR '' ''"
proof -
  have "(of_char (digit_char d) :: nat) \<noteq> of_char (CHR ''_'')"
       "(of_char (digit_char d) :: nat) \<noteq> of_char (CHR ''-'')"
       "(of_char (digit_char d) :: nat) \<noteq> of_char (CHR ''+'')"
       "(of_char (digit_char d) :: nat) \<noteq> of_char (CHR '' '')"
    using assms by (simp_all add: of_char_digit_char)
  then show "digit_char d \<noteq> CHR ''_''" "digit_char d \<noteq> CHR ''-''" "digit_char d \<noteq> CHR ''+''"
    "digit_char d \<noteq> CHR '' ''"
    by fastforce+
qed

lemma dec_nat_digits: "\<forall>c \<in> set (dec_nat n). is_digit c"
proof (induction n rule: dec_nat.induct)
  case (1 n)
  show ?case
  proof (cases "n < 10")
    case True
    then show ?thesis by (subst dec_nat.simps) (auto simp: is_digit_def)
  next
    case False
    have "n mod 10 < 10" by simp
    then have "is_digit (digit_char (n mod 10))" unfolding is_digit_def by blast
    then show ?thesis using False 1 by (subst dec_nat.simps) auto
  qed
qed

lemma dec_nat_nonempty: "dec_nat n \<noteq> []"
  by (subst dec_nat.simps) simp

lemma length_dec_nat: "1 \<le> w \<Longrightarrow> n < 10 ^ w \<Longrightarrow> length (dec_nat n) \<le> w"
proof (induction n arbitrary: w rule: dec_nat.induct)
  case (1 n)
  show ?case
  proof (cases "n < 10")
    case True
    then show ?thesis using "1.prems" by (subst dec_nat.simps) simp
  next
    case False
    then obtain k where k: "w = Suc k" using "1.prems" by (cases w) auto
    have k1: "1 \<le> k" using False "1.prems" k by (cases k) auto
    have "n div 10 < 10 ^ k" using "1.prems"(2) k by (simp add: less_mult_imp_div_less mult.commute)
    then have "length (dec_nat (n div 10)) \<le> k" using "1.IH" [OF False k1] by simp
    then show ?thesis using False k by (subst dec_nat.simps) simp
  qed
qed

lemma parse_digits_dec_nat:
  "parse_digits (dec_nat n @ rest) acc prev =
   parse_digits rest (acc * 10 ^ length (dec_nat n) + int n) True"
proof (induction n arbitrary: rest acc prev rule: dec_nat.induct)
  case (1 n)
  show ?case
  proof (cases "n < 10")
    case True
    then show ?thesis
      by (subst (1 2) dec_nat.simps) (simp add: digit_val_digit_char digit_char_neq mult.commute)
  next
    case False
    have m: "n mod 10 < 10" by simp
    have "parse_digits (dec_nat n @ rest) acc prev =
          parse_digits (dec_nat (n div 10) @ (digit_char (n mod 10) # rest)) acc prev"
      using False by (subst dec_nat.simps) simp
    also have "\<dots> = parse_digits (digit_char (n mod 10) # rest)
                        (acc * 10 ^ length (dec_nat (n div 10)) + int (n div 10)) True"
      using "1.IH" [OF False] .
    also have "\<dots> = parse_digits rest
                 (10 * (acc * 10 ^ length (dec_nat (n div 10)) + int (n div 10)) + int (n mod 10)) True"
      using m by (simp add: digit_val_digit_char digit_char_neq)
    also have "10 * (acc * 10 ^ length (dec_nat (n div 10)) + int (n div 10)) + int (n mod 10)
               = acc * 10 ^ length (dec_nat n) + int n"
    proof -
      have "length (dec_nat n) = Suc (length (dec_nat (n div 10)))"
        using False by (subst dec_nat.simps) simp
      moreover have "int n = 10 * int (n div 10) + int (n mod 10)"
        by (metis mult_div_mod_eq of_nat_add of_nat_mult of_nat_numeral)
      ultimately show ?thesis by (simp add: algebra_simps)
    qed
    finally show ?thesis .
  qed
qed

lemma int_strip_padded:
  assumes "\<forall>c \<in> set s. is_digit c" "s \<noteq> []"
  shows "int_strip (replicate k (CHR '' '') @ s) = s"
proof -
  have sp: "int_space (CHR '' '')" by (simp add: int_space_def)
  have nsp: "\<And>c. is_digit c \<Longrightarrow> \<not> int_space c"
    by (auto simp: is_digit_def digit_char_not_space)
  obtain c cs where s: "s = c # cs" using assms(2) by (cases s) auto
  have "dropWhile int_space (replicate k (CHR '' '') @ s) = s"
    using assms(1) s sp nsp by (simp add: dropWhile_append3)
  moreover have "dropWhile int_space (rev s) = rev s"
  proof -
    have "rev s \<noteq> []" using assms(2) by simp
    then obtain d ds where r: "rev s = d # ds" by (cases "rev s") auto
    then have "d \<in> set s" by (metis list.set_intros(1) set_rev)
    then show ?thesis using r assms(1) nsp by simp
  qed
  ultimately show ?thesis by (simp add: int_strip_def)
qed

lemma py_int_separator: "py_int [CHR 0x1C, CHR ''1'', CHR ''3''] = Inl ValueError"
  by code_simp

lemma py_int_padded_dec:
  "py_int (replicate k (CHR '' '') @ dec_nat n) = Inr (int n)"
proof -
  have st: "int_strip (replicate k (CHR '' '') @ dec_nat n) = dec_nat n"
    by (rule int_strip_padded [OF dec_nat_digits dec_nat_nonempty])
  obtain c cs where s: "dec_nat n = c # cs" using dec_nat_nonempty [of n] by (cases "dec_nat n") auto
  have "is_digit c" using dec_nat_digits [of n] s by simp
  then have c: "c \<noteq> CHR ''-''" "c \<noteq> CHR ''+''" by (auto simp: is_digit_def digit_char_neq)
  have "parse_digits (dec_nat n) 0 False = Some (int n)"
    using parse_digits_dec_nat [of n "[]" 0 False] by simp
  then have "parse_digits (c # cs) 0 False = Some (int n)" using s by simp
  moreover have "int_strip (replicate k (CHR '' '') @ c # cs) = c # cs" using st s by simp
  ultimately show ?thesis using c unfolding s py_int_def Let_def
    by (simp del: parse_digits.simps)
qed

subsection \<open>The base-36 bands\<close>

lemma encode_pure_loop_lsd:
  "2 \<le> length digits \<Longrightarrow>
   encode_pure_loop digits (int v) acc = Some (acc @ map ((!) digits) (lsd (length digits) v))"
proof (induction v arbitrary: acc rule: less_induct)
  case (less v)
  show ?case
  proof (cases "v = 0")
    case True
    then show ?thesis
      by (subst encode_pure_loop.simps) (simp add: lsd.simps)
  next
    case False
    let ?n = "length digits"
    have lt: "v div ?n < v" using False less.prems by simp
    have d: "int v div int ?n = int (v div ?n)" by (simp add: zdiv_int)
    have m: "nat (int v - int (v div ?n) * int ?n) = v mod ?n"
      by (metis minus_div_mult_eq_mod nat_int of_nat_mult zmod_int d)
    have "encode_pure_loop digits (int v) acc =
          encode_pure_loop digits (int (v div ?n)) (acc @ [digits ! (v mod ?n)])"
      using False by (subst encode_pure_loop.simps) (simp add: Let_def d m)
    also have "\<dots> = Some ((acc @ [digits ! (v mod ?n)]) @ map ((!) digits) (lsd ?n (v div ?n)))"
      using less.IH [OF lt less.prems] .
    also have "\<dots> = Some (acc @ map ((!) digits) (lsd ?n v))"
      using False less.prems by (subst (2) lsd.simps) simp
    finally show ?thesis .
  qed
qed

lemma length_lsd:
  "2 \<le> b \<Longrightarrow> 1 \<le> w \<Longrightarrow> b ^ (w - 1) \<le> v \<Longrightarrow> v < b ^ w \<Longrightarrow> length (lsd b v) = w"
proof (induction w arbitrary: v)
  case 0
  then show ?case by simp
next
  case (Suc w)
  have vpos: "v \<noteq> 0" using Suc.prems by (metis not_less power_eq_0_iff le_zero_eq zero_neq_numeral le_0_eq not_numeral_le_zero)
  show ?case
  proof (cases "w = 0")
    case True
    then have "v < b" using Suc.prems by simp
    then have "v div b = 0" by simp
    then show ?thesis using True vpos Suc.prems(1)
      by (subst lsd.simps) (simp add: lsd.simps)
  next
    case False
    then obtain k where k: "w = Suc k" by (cases w) auto
    have "b ^ (w - 1) \<le> v div b"
    proof -
      have "b * b ^ k \<le> v" using Suc.prems(3) k by simp
      then show ?thesis using Suc.prems(1) k
        by (metis diff_Suc_1 div_le_mono nonzero_mult_div_cancel_left not_numeral_le_zero)
    qed
    moreover have "v div b < b ^ w"
      using Suc.prems(1,4) by (simp add: less_mult_imp_div_less mult.commute)
    ultimately have "length (lsd b (v div b)) = w"
      using Suc.IH [of "v div b"] Suc.prems(1) False by simp
    then show ?thesis using vpos Suc.prems(1) by (subst lsd.simps) simp
  qed
qed


lemma enc_step:
  "2 \<le> length digits \<Longrightarrow> v \<noteq> 0 \<Longrightarrow>
   enc digits v = enc digits (v div length digits) @ [digits ! (v mod length digits)]"
  unfolding enc_def by (subst lsd.simps) simp

lemma enc_zero: "enc digits 0 = []"
  unfolding enc_def by (simp add: lsd.simps)

lemma length_enc: "length (enc digits v) = length (lsd (length digits) v)"
  by (simp add: enc_def)

lemma enc_less:
  assumes n: "2 \<le> length digits" and srt: "sorted_wrt (<) digits"
  shows "v1 < v2 \<Longrightarrow> length (enc digits v1) = length (enc digits v2) \<Longrightarrow>
         enc digits v1 < enc digits v2"
proof (induction v2 arbitrary: v1 rule: less_induct)
  case (less v2)
  let ?n = "length digits"
  have v2: "v2 \<noteq> 0" using less.prems by simp
  show ?case
  proof (cases "v1 = 0")
    case True
    then have "enc digits v2 = []" using less.prems(2) by (simp add: enc_zero)
    then show ?thesis using v2 n by (simp add: enc_step)
  next
    case False
    have e1: "enc digits v1 = enc digits (v1 div ?n) @ [digits ! (v1 mod ?n)]"
      using enc_step [OF n False] .
    have e2: "enc digits v2 = enc digits (v2 div ?n) @ [digits ! (v2 mod ?n)]"
      using enc_step [OF n v2] .
    have len: "length (enc digits (v1 div ?n)) = length (enc digits (v2 div ?n))"
      using less.prems(2) e1 e2 by simp
    have le: "v1 div ?n \<le> v2 div ?n" using less.prems(1) by (simp add: div_le_mono)
    show ?thesis
    proof (cases "v1 div ?n = v2 div ?n")
      case True
      have "v1 mod ?n < v2 mod ?n"
        using True less.prems(1) by (metis div_mult_mod_eq nat_add_left_cancel_less)
      moreover have "v2 mod ?n < ?n" using n by (intro mod_less_divisor) linarith
      ultimately have "digits ! (v1 mod ?n) < digits ! (v2 mod ?n)"
        using srt by (simp add: sorted_wrt_nth_less)
      then show ?thesis
        unfolding e1 e2 True list_less_def by (intro lexord_append_leftI) simp
    next
      case False
      then have lt: "v1 div ?n < v2 div ?n" using le by simp
      have "v2 div ?n < v2" using v2 n by simp
      then have "enc digits (v1 div ?n) < enc digits (v2 div ?n)"
        using less.IH [of "v2 div ?n" "v1 div ?n"] lt len by simp
      then show ?thesis
        unfolding e1 e2 list_less_def using len by (intro lexord_sufI) simp_all
    qed
  qed
qed

lemma encode_pure_enc:
  "2 \<le> length digits \<Longrightarrow> 0 < v \<Longrightarrow> encode_pure digits v = Inr (enc digits (nat v))"
  using encode_pure_loop_lsd [of digits "nat v" "[]"]
  by (cases digits) (simp_all add: encode_pure_def enc_def rev_map)


lemma hybrid36_decimal:
  "1 - 10 ^ (w - 1) \<le> v \<Longrightarrow> v < 10 ^ w \<Longrightarrow>
   number_to_hybrid36_number v w = Inr (rjust w (CHR '' '') (str_int v))"
  by (simp add: number_to_hybrid36_number_def)

lemma hybrid36_below: "v < 1 - 10 ^ (w - 1) \<Longrightarrow> number_to_hybrid36_number v w = Inl ValueError"
  by (simp add: number_to_hybrid36_number_def)

lemma hybrid36_above:
  "10 ^ w + 2 * 26 * 36 ^ (w - 1) \<le> v \<Longrightarrow> number_to_hybrid36_number v w = Inl ValueError"
proof -
  assume a: "10 ^ w + 2 * 26 * 36 ^ (w - 1) \<le> v"
  have "(0::int) < 36 ^ (w - 1)" "(0::int) < 10 ^ w" by simp_all
  then have "\<not> v < 10 ^ w" "\<not> v - 10 ^ w < 26 * 36 ^ (w - 1)"
    "\<not> v - 10 ^ w - 26 * 36 ^ (w - 1) < 26 * 36 ^ (w - 1)"
    using a by linarith+
  then show ?thesis by (simp add: number_to_hybrid36_number_def Let_def)
qed

lemma hybrid36_upper:
  assumes "10 ^ w \<le> v" "v < 10 ^ w + 26 * 36 ^ (w - 1)"
  shows "number_to_hybrid36_number v w =
         Inr (enc digits_upper (nat (v - 10 ^ w + 10 * 36 ^ (w - 1))))"
proof -
  have p: "(0::int) < 36 ^ (w - 1)" "(0::int) < 10 ^ w" "(0::int) < 10 ^ (w - 1)" by simp_all
  have 1: "1 - 10 ^ (w - 1) \<le> v" "\<not> v < 10 ^ w" "v - 10 ^ w < 26 * 36 ^ (w - 1)"
    using assms p by linarith+
  have "0 < v - 10 ^ w + 10 * 36 ^ (w - 1)" using assms p by linarith
  then have "encode_pure digits_upper (v - 10 ^ w + 10 * 36 ^ (w - 1)) =
             Inr (enc digits_upper (nat (v - 10 ^ w + 10 * 36 ^ (w - 1))))"
    by (intro encode_pure_enc) (simp_all add: length_digits_upper)
  then show ?thesis using 1 by (simp add: number_to_hybrid36_number_def Let_def)
qed

lemma hybrid36_lower:
  assumes "10 ^ w + 26 * 36 ^ (w - 1) \<le> v" "v < 10 ^ w + 2 * 26 * 36 ^ (w - 1)"
  shows "number_to_hybrid36_number v w =
         Inr (enc digits_lower (nat (v - 10 ^ w - 26 * 36 ^ (w - 1) + 10 * 36 ^ (w - 1))))"
proof -
  have p: "(0::int) < 36 ^ (w - 1)" "(0::int) < 10 ^ w" "(0::int) < 10 ^ (w - 1)" by simp_all
  have 1: "1 - 10 ^ (w - 1) \<le> v" "\<not> v < 10 ^ w" "\<not> v - 10 ^ w < 26 * 36 ^ (w - 1)"
    "v - 10 ^ w - 26 * 36 ^ (w - 1) < 26 * 36 ^ (w - 1)"
    using assms p by linarith+
  have "0 < v - 10 ^ w - 26 * 36 ^ (w - 1) + 10 * 36 ^ (w - 1)" using assms p by linarith
  then have "encode_pure digits_lower (v - 10 ^ w - 26 * 36 ^ (w - 1) + 10 * 36 ^ (w - 1)) =
             Inr (enc digits_lower (nat (v - 10 ^ w - 26 * 36 ^ (w - 1) + 10 * 36 ^ (w - 1))))"
    by (intro encode_pure_enc) (simp_all add: length_digits_lower)
  then show ?thesis using 1 by (simp add: number_to_hybrid36_number_def Let_def)
qed

text \<open>A value in a base-36 band is spelled with exactly \<open>w\<close> letters.\<close>

lemma length_enc_band:
  assumes w: "1 \<le> w" and n: "length digits = 36"
    and lo: "10 * 36 ^ (w - 1) \<le> x" and hi: "x < 36 * 36 ^ (w - 1)"
  shows "length (enc digits x) = w"
proof -
  have "(36::nat) ^ (w - 1) \<le> 10 * 36 ^ (w - 1)" by simp
  then have 1: "(36::nat) ^ (w - 1) \<le> x" using lo by linarith
  have "(36::nat) * 36 ^ (w - 1) = 36 ^ w" using w by (cases w) simp_all
  then have 2: "x < 36 ^ w" using hi by simp
  show ?thesis using length_lsd [of 36 w x] w 1 2 by (simp add: length_enc n)
qed

lemma band_nat:
  assumes "(0::int) \<le> y" "y < 26 * 36 ^ (w - 1)"
  shows "10 * 36 ^ (w - 1) \<le> nat (y + 10 * 36 ^ (w - 1))"
    "nat (y + 10 * 36 ^ (w - 1)) < 36 * 36 ^ (w - 1)"
proof -
  have e: "int (10 * 36 ^ (w - 1)) = 10 * 36 ^ (w - 1)" "int (36 * 36 ^ (w - 1)) = 36 * 36 ^ (w - 1)"
    by simp_all
  have "int (10 * 36 ^ (w - 1)) \<le> y + 10 * 36 ^ (w - 1)" using assms unfolding e by linarith
  then show "10 * 36 ^ (w - 1) \<le> nat (y + 10 * 36 ^ (w - 1))" by linarith
  have "y + 10 * 36 ^ (w - 1) < int (36 * 36 ^ (w - 1))" using assms unfolding e by linarith
  moreover have "0 \<le> y + 10 * 36 ^ (w - 1)" using assms(1) by simp
  ultimately show "nat (y + 10 * 36 ^ (w - 1)) < 36 * 36 ^ (w - 1)"
    by (simp only: nat_less_iff)
qed


lemma hybrid36_upper_length:
  assumes "1 \<le> w" "10 ^ w \<le> v" "v < 10 ^ w + 26 * 36 ^ (w - 1)"
  shows "length (enc digits_upper (nat (v - 10 ^ w + 10 * 36 ^ (w - 1)))) = w"
  using assms band_nat [of "v - 10 ^ w" w]
  by (intro length_enc_band) (simp_all add: length_digits_upper)

lemma hybrid36_lower_length:
  assumes "1 \<le> w" "10 ^ w + 26 * 36 ^ (w - 1) \<le> v" "v < 10 ^ w + 2 * 26 * 36 ^ (w - 1)"
  shows "length (enc digits_lower (nat (v - 10 ^ w - 26 * 36 ^ (w - 1) + 10 * 36 ^ (w - 1)))) = w"
  using assms band_nat [of "v - 10 ^ w - 26 * 36 ^ (w - 1)" w]
  by (intro length_enc_band) (simp_all add: length_digits_lower)

lemma remove_spaces_padded:
  "remove_spaces (replicate k (CHR '' '') @ dec_nat n) = dec_nat n"
proof -
  have "c \<noteq> CHR '' ''" if "c \<in> set (dec_nat n)" for c
  proof -
    have "is_digit c" using dec_nat_digits [of n] that by (rule bspec)
    then obtain d where "d < 10" "c = digit_char d" unfolding is_digit_def by (elim exE conjE)
    then show ?thesis using digit_char_neq(4) [of d] by simp
  qed
  then have "filter (\<lambda>c. c \<noteq> CHR '' '') (dec_nat n) = dec_nat n"
    by (simp add: filter_id_conv)
  then show ?thesis by (simp add: remove_spaces_def)
qed

lemma hybrid36_decimal_band:
  assumes w: "1 \<le> w" and v: "0 \<le> v" "v < 10 ^ w"
  shows "number_to_hybrid36_number v w = Inr (rjust w (CHR '' '') (str_int v))"
    and "length (rjust w (CHR '' '') (str_int v)) = w"
    and "py_int (rjust w (CHR '' '') (str_int v)) = Inr v"
    and "py_int (remove_spaces (rjust w (CHR '' '') (str_int v))) = Inr v"
proof -
  have "(0::int) < 10 ^ (w - 1)" by simp
  then have "1 - 10 ^ (w - 1) \<le> v" using v(1) by linarith
  then show "number_to_hybrid36_number v w = Inr (rjust w (CHR '' '') (str_int v))"
    using v(2) by (rule hybrid36_decimal)
  have s: "str_int v = dec_nat (nat v)" using v(1) by (simp add: str_int_def)
  have "nat v < 10 ^ w" using v by (simp add: nat_less_iff)
  then have "length (dec_nat (nat v)) \<le> w" using w by (intro length_dec_nat)
  then show "length (rjust w (CHR '' '') (str_int v)) = w" by (simp add: rjust_def s)
  show "py_int (rjust w (CHR '' '') (str_int v)) = Inr v"
    using v(1) by (simp add: rjust_def s py_int_padded_dec)
  show "py_int (remove_spaces (rjust w (CHR '' '') (str_int v))) = Inr v"
    using v(1) py_int_padded_dec [of 0 "nat v"] by (simp add: rjust_def s remove_spaces_padded)
qed

lemma hybrid36_upper_less:
  assumes "1 \<le> w" "10 ^ w \<le> v1" "v1 < v2" "v2 < 10 ^ w + 26 * 36 ^ (w - 1)"
    "number_to_hybrid36_number v1 w = Inr s1" "number_to_hybrid36_number v2 w = Inr s2"
  shows "s1 < s2"
proof -
  let ?x1 = "nat (v1 - 10 ^ w + 10 * 36 ^ (w - 1))"
  let ?x2 = "nat (v2 - 10 ^ w + 10 * 36 ^ (w - 1))"
  have s1: "s1 = enc digits_upper ?x1" using hybrid36_upper [of w v1] assms by simp
  have s2: "s2 = enc digits_upper ?x2" using hybrid36_upper [of w v2] assms by simp
  have "(0::int) < 36 ^ (w - 1)" by simp
  then have "0 \<le> v1 - 10 ^ w + 10 * 36 ^ (w - 1)" using assms(2) by linarith
  then have lt: "?x1 < ?x2" using assms(3) by linarith
  have b: "v1 < 10 ^ w + 26 * 36 ^ (w - 1)" "10 ^ w \<le> v2" using assms(2-4) by linarith+
  have "length (enc digits_upper ?x1) = w"
    using assms(1,2) b(1) by (rule hybrid36_upper_length)
  moreover have "length (enc digits_upper ?x2) = w"
    using assms(1) b(2) assms(4) by (rule hybrid36_upper_length)
  ultimately have "length (enc digits_upper ?x1) = length (enc digits_upper ?x2)" by simp
  then show ?thesis unfolding s1 s2 using lt
    by (intro enc_less) (simp_all add: length_digits_upper sorted_digits_upper)
qed

lemma hybrid36_lower_less:
  assumes "1 \<le> w" "10 ^ w + 26 * 36 ^ (w - 1) \<le> v1" "v1 < v2"
    "v2 < 10 ^ w + 2 * 26 * 36 ^ (w - 1)"
    "number_to_hybrid36_number v1 w = Inr s1" "number_to_hybrid36_number v2 w = Inr s2"
  shows "s1 < s2"
proof -
  let ?x1 = "nat (v1 - 10 ^ w - 26 * 36 ^ (w - 1) + 10 * 36 ^ (w - 1))"
  let ?x2 = "nat (v2 - 10 ^ w - 26 * 36 ^ (w - 1) + 10 * 36 ^ (w - 1))"
  have s1: "s1 = enc digits_lower ?x1" using hybrid36_lower [of w v1] assms by simp
  have s2: "s2 = enc digits_lower ?x2" using hybrid36_lower [of w v2] assms by simp
  have "(0::int) < 36 ^ (w - 1)" by simp
  then have "0 \<le> v1 - 10 ^ w - 26 * 36 ^ (w - 1) + 10 * 36 ^ (w - 1)" using assms(2) by linarith
  then have lt: "?x1 < ?x2" using assms(3) by linarith
  have b: "v1 < 10 ^ w + 2 * 26 * 36 ^ (w - 1)" "10 ^ w + 26 * 36 ^ (w - 1) \<le> v2"
    using assms(2-4) by linarith+
  have "length (enc digits_lower ?x1) = w"
    using assms(1,2) b(1) by (rule hybrid36_lower_length)
  moreover have "length (enc digits_lower ?x2) = w"
    using assms(1) b(2) assms(4) by (rule hybrid36_lower_length)
  ultimately have "length (enc digits_lower ?x1) = length (enc digits_lower ?x2)" by simp
  then show ?thesis unfolding s1 s2 using lt
    by (intro enc_less) (simp_all add: length_digits_lower sorted_digits_lower)
qed

lemma hybrid36_band_length:
  assumes "1 \<le> w" "10 ^ w \<le> v" "v < 10 ^ w + 2 * 26 * 36 ^ (w - 1)"
  shows "\<exists>s. number_to_hybrid36_number v w = Inr s \<and> length s = w"
proof (cases "v < 10 ^ w + 26 * 36 ^ (w - 1)")
  case True
  then show ?thesis using assms hybrid36_upper [of w v] hybrid36_upper_length [of w v] by simp
next
  case False
  then show ?thesis using assms hybrid36_lower [of w v] hybrid36_lower_length [of w v] by simp
qed

section \<open>Properties of the corrector\<close>

subsection \<open>Columns\<close>

lemma length_slice: "b \<le> length s \<Longrightarrow> length (slice a b s) = b - a"
  by (simp add: slice_def)

lemma slice_split: "a \<le> b \<Longrightarrow> b \<le> c \<Longrightarrow> slice a b s @ slice b c s = slice a c s"
proof -
  assume ab: "a \<le> b" and bc: "b \<le> c"
  have "take (b - a) (drop a s) @ take (c - b) (drop (b - a) (drop a s)) =
        take ((b - a) + (c - b)) (drop a s)"
    by (simp add: take_add)
  then show ?thesis using ab bc by (simp add: slice_def)
qed

lemma slice_from_split: "a \<le> b \<Longrightarrow> slice a b s @ slice_from b s = slice_from a s"
proof -
  assume ab: "a \<le> b"
  have "take (b - a) (drop a s) @ drop (b - a) (drop a s) = drop a s"
    by (rule append_take_drop_id)
  then show ?thesis using ab by (simp add: slice_def slice_from_def)
qed

lemma slice_from_0: "slice_from 0 s = s"
  by (simp add: slice_from_def)

lemma line_columns:
  "line = slice 0 12 line @ slice 12 16 line @ slice 16 17 line @ slice 17 20 line
          @ slice_from 20 line"
  by (simp add: slice_from_split slice_from_0)

subsection \<open>Nomenclature\<close>

lemma nomcla_lookup:
  "(case map_of NOMCLA a of None \<Rightarrow> a | Some b \<Rightarrow> b) =
   (if a \<in> fst ` set NOMCLA then (case map_of NOMCLA a of None \<Rightarrow> replicate 4 (CHR '' '') | Some b \<Rightarrow> b) else a)"
  by (simp add: NOMCLA_def)

lemma nomcla_base_lookup:
  "(case map_of NOMCLA_BASE a of None \<Rightarrow> a | Some b \<Rightarrow> b) =
   (if a \<in> fst ` set NOMCLA_BASE then (case map_of NOMCLA_BASE a of None \<Rightarrow> replicate 4 (CHR '' '') | Some b \<Rightarrow> b) else a)"
  by (simp add: NOMCLA_BASE_def)

lemma correct_nomenclature_eq:
  "correct_nomenclature line =
     slice 0 12 line
     @ (case map_of NOMCLA (slice 12 16 line) of None \<Rightarrow> slice 12 16 line | Some a \<Rightarrow> a)
     @ '' ''
     @ (case map_of NOMCLA_BASE (slice 17 20 line) of None \<Rightarrow> slice 17 20 line | Some b \<Rightarrow> b)
     @ slice_from 20 line"
  unfolding correct_nomenclature_def Let_def nomcla_lookup [symmetric] nomcla_base_lookup [symmetric]
  by (rule refl)

lemma nomcla_length:
  "length a = 4 \<Longrightarrow> length (case map_of NOMCLA a of None \<Rightarrow> a | Some b \<Rightarrow> b) = 4"
  by (simp add: NOMCLA_def)

lemma nomcla_base_length:
  "length a = 3 \<Longrightarrow> length (case map_of NOMCLA_BASE a of None \<Rightarrow> a | Some b \<Rightarrow> b) = 3"
  by (simp add: NOMCLA_BASE_def)

subsection \<open>The loop of the pass\<close>

lemma slice_slice: "c + b \<le> d \<Longrightarrow> slice a b (slice c d s) = slice (c + a) (c + b) s"
  by (simp add: slice_def drop_take add.commute min_def)

lemma correct_pdb_loop_append:
  "correct_pdb_loop logic (xs @ ys) st =
     (case correct_pdb_loop logic xs st of Inl e \<Rightarrow> Inl e | Inr st' \<Rightarrow> correct_pdb_loop logic ys st')"
  by (induction xs arbitrary: st) (auto split: sum.splits)

lemma atom_not_title: "is_atom_record line \<Longrightarrow> slice 0 6 line \<notin> set [''TITLE '', ''CRYST1'']"
  by (simp add: is_atom_record_def)

lemma correct_pdb_step_skip:
  "is_atom_record line \<Longrightarrow> slice 13 15 line = ''  '' \<Longrightarrow> correct_pdb_step logic line st = Inr st"
  using atom_not_title [of line]
  by (cases st) (simp add: correct_pdb_step_def Let_def is_atom_record_def del: set_simps)

lemma correct_pdb_step_processed:
  "is_atom_record line \<Longrightarrow> slice 13 15 line \<noteq> ''  '' \<Longrightarrow>
   correct_pdb_step logic line (cur, t, body) =
     (case correct_atom logic line cur t of
        Inl e \<Rightarrow> Inl e
      | Inr (line6, is_ter2, cur3) \<Rightarrow>
          (case is_ter2 of
             None \<Rightarrow> Inl UnboundLocalError
           | Some b \<Rightarrow> Inr (cur3, is_ter2, body @ (if b then [TER] else []) @ [line6])))"
  using atom_not_title [of line]
  by (simp add: correct_pdb_step_def Let_def is_atom_record_def del: set_simps)

lemma correct_atom_is_ter:
  "molecule_chain logic \<Longrightarrow> correct_atom logic line cur t = Inr (line6, is_ter2, cur3) \<Longrightarrow>
   \<exists>b. is_ter2 = Some b"
  by (auto simp: correct_atom_def Let_def split: sum.splits if_splits prod.splits)

lemma correct_atom_is_ter_off:
  "\<not> molecule_chain logic \<Longrightarrow> correct_atom logic line cur t = Inr (line6, is_ter2, cur3) \<Longrightarrow>
   is_ter2 = t"
  by (auto simp: correct_atom_def Let_def split: sum.splits if_splits prod.splits)

lemma correct_pdb_skip:
  assumes "is_atom_record line" "slice 13 15 line = ''  ''"
  shows "correct_pdb cur (xs @ line # ys) logic = correct_pdb cur (xs @ ys) logic"
proof -
  have "correct_pdb_loop logic (xs @ line # ys) st = correct_pdb_loop logic (xs @ ys) st" for st
    using correct_pdb_step_skip [OF assms]
    by (simp add: correct_pdb_loop_append split: sum.splits)
  then show ?thesis by (simp add: correct_pdb_def correct_pdb_body_def)
qed

lemma correct_pdb_step_off:
  assumes off: "\<not> molecule_chain logic"
    and r: "correct_pdb_step logic line (cur, None, body) = Inr (cur', t', body')"
  shows "\<not> is_processed line \<and> t' = None"
proof (cases "is_processed line")
  case True
  then have a: "is_atom_record line" "slice 13 15 line \<noteq> ''  ''" by (simp_all add: is_processed_def)
  show ?thesis
  proof (cases "correct_atom logic line cur None")
    case (Inl e)
    then show ?thesis using r correct_pdb_step_processed [OF a, of logic cur None body] by simp
  next
    case (Inr x)
    obtain l6 t2 c3 where x: "x = (l6, t2, c3)" by (cases x) auto
    have "t2 = None" using correct_atom_is_ter_off [OF off] Inr x by simp
    then show ?thesis using r Inr x correct_pdb_step_processed [OF a, of logic cur None body] by simp
  qed
next
  case False
  have "t' = None"
    using r False
    by (auto simp: correct_pdb_step_def Let_def is_processed_def is_atom_record_def
        split: if_splits)
  then show ?thesis using False by simp
qed

lemma correct_pdb_loop_off:
  assumes off: "\<not> molecule_chain logic"
  shows "correct_pdb_loop logic pdb_file (cur, None, body) = Inr (cur', t', body') \<Longrightarrow>
         (\<forall>l \<in> set pdb_file. \<not> is_processed l) \<and> t' = None"
proof (induction pdb_file arbitrary: cur body)
  case Nil
  then show ?case by simp
next
  case (Cons l ls)
  from Cons.prems obtain st where s: "correct_pdb_step logic l (cur, None, body) = Inr st"
    and rest: "correct_pdb_loop logic ls st = Inr (cur', t', body')"
    by (auto split: sum.splits)
  obtain c1 t1 b1 where st: "st = (c1, t1, b1)" by (cases st) auto
  have 1: "\<not> is_processed l \<and> t1 = None" using correct_pdb_step_off [OF off] s st by simp
  then have "(\<forall>l \<in> set ls. \<not> is_processed l) \<and> t' = None"
    using Cons.IH [of c1 b1] rest st by simp
  then show ?case using 1 by simp
qed

subsection \<open>The chain and residue renumbering\<close>

lemma hybrid36_length:
  assumes w: "1 \<le> w" and r: "number_to_hybrid36_number v w = Inr s"
  shows "length s = w"
proof -
  have inr: "\<not> (v < 1 - 10 ^ (w - 1) \<or> v \<ge> 10 ^ w + 2 * 26 * 36 ^ (w - 1))"
    using r hybrid36_below [of v w] hybrid36_above [of w v] by auto
  consider "v < 0" | "0 \<le> v" "v < 10 ^ w" | "10 ^ w \<le> v" by linarith
  then show ?thesis
  proof cases
    case 1
    have lo: "1 - 10 ^ (w - 1) \<le> v" using inr by simp
    have "(0::int) < 10 ^ w" by simp
    then have hi: "v < 10 ^ w" using 1 by linarith
    have s: "s = rjust w (CHR '' '') (str_int v)" using hybrid36_decimal [OF lo hi] r by simp
    have w2: "1 \<le> w - 1"
    proof (rule ccontr)
      assume "\<not> 1 \<le> w - 1"
      then have "w - 1 = 0" by simp
      then show False using lo 1 by simp
    qed
    have "int (nat (- v)) < 10 ^ (w - 1)" using lo 1 by simp
    then have "nat (- v) < 10 ^ (w - 1)" by (metis of_nat_less_iff of_nat_numeral of_nat_power)
    then have "length (dec_nat (nat (- v))) \<le> w - 1" using w2 by (intro length_dec_nat)
    then have "length (str_int v) \<le> w" using 1 w by (simp add: str_int_def)
    then show ?thesis by (simp add: s rjust_def)
  next
    case 2
    then show ?thesis using hybrid36_decimal_band(1,2) [OF w 2] r by simp
  next
    case 3
    then show ?thesis using hybrid36_band_length [OF w 3] inr r by auto
  qed
qed

lemma py_int_nonempty: "py_int s = Inr m \<Longrightarrow> s \<noteq> []"
  by (auto simp: py_int_def int_strip_def)

lemma parsed_line_length:
  assumes "py_int (remove_spaces (slice 22 26 line)) = Inr m"
  shows "22 < length line"
proof (rule ccontr)
  assume "\<not> 22 < length line"
  then have "slice 22 26 line = []" by (simp add: slice_def)
  then have "remove_spaces (slice 22 26 line) = []" by (simp add: remove_spaces_def)
  then show False using py_int_nonempty [OF assms] by simp
qed

lemma increase_chain_id_all:
  "list_all (\<lambda>i. increase_chain_id [possible_chain_ids ! i]
                  = [possible_chain_ids ! (if i < 25 then i + 1 else 1)]) [0..<26]"
  by code_simp

lemma increase_chain_id_nth:
  "i < 26 \<Longrightarrow>
   increase_chain_id [possible_chain_ids ! i] = [possible_chain_ids ! (if i < 25 then i + 1 else 1)]"
  using increase_chain_id_all by (simp add: list_all_iff)

lemma chain_letters_distinct: "distinct possible_chain_ids"
  by (simp add: possible_chain_ids_def)

lemma chain_letter_Z: "i < 26 \<Longrightarrow> ([possible_chain_ids ! i] = ''Z'') = (i = 25)"
proof -
  assume i: "i < 26"
  have z: "possible_chain_ids ! 25 = CHR ''Z''" by (simp add: possible_chain_ids_def)
  have "length possible_chain_ids = 26" by (simp add: possible_chain_ids_def)
  then have "(possible_chain_ids ! i = possible_chain_ids ! 25) = (i = 25)"
    using i chain_letters_distinct by (simp add: nth_eq_iff_index_eq)
  then show ?thesis using z by simp
qed

lemma chain_letter_B: "possible_chain_ids ! 1 = CHR ''B''"
  by (simp add: possible_chain_ids_def)

lemma chain_letter_not_A: "i < 26 \<Longrightarrow> 0 < i \<Longrightarrow> [possible_chain_ids ! i] \<noteq> ''A''"
proof -
  assume i: "i < 26" "0 < i"
  have a: "possible_chain_ids ! 0 = CHR ''A''" by (simp add: possible_chain_ids_def)
  have "length possible_chain_ids = 26" by (simp add: possible_chain_ids_def)
  then have "(possible_chain_ids ! i = possible_chain_ids ! 0) = (i = 0)"
    using i chain_letters_distinct by (simp add: nth_eq_iff_index_eq)
  then show ?thesis using a i by simp
qed

lemma length_repeats_label:
  assumes "0 \<le> r" "r < 1000"
  shows "length (rjust 3 (CHR ''0'') (str_int r)) = 3"
proof -
  have "nat r < 10 ^ 3" using assms by simp
  then have "length (dec_nat (nat r)) \<le> 3" by (intro length_dec_nat) simp_all
  then show ?thesis using assms by (simp add: rjust_def str_int_def)
qed

lemma correct_molecule_chain_same:
  assumes p: "py_int (remove_spaces (slice 22 26 line)) = Inr m"
    and same: "cur_chain cur = Some (slice 72 76 line)"
  shows "correct_molecule_chain cur line reset =
    (let n = (if m = old_molecule_number cur then last_molecule_number cur
              else if m = old_molecule_number cur + 1 then last_molecule_number cur + 1
              else last_molecule_number cur + 10)
     in case number_to_hybrid36_number (if reset then n else m) 4 of
          Inl e \<Rightarrow> Inl e
        | Inr s \<Rightarrow>
            Inr (slice 0 21 line @ chain_id cur @ s @ slice 26 67 line @ replicate 5 (CHR '' '')
                   @ (chain_id cur @ rjust 3 (CHR ''0'') (str_int (chain_id_repeats cur)))
                   @ slice_from 76 line,
                 m \<noteq> old_molecule_number cur \<and> m \<noteq> old_molecule_number cur + 1,
                 cur\<lparr>chain_id := chain_id cur, chain_id_repeats := chain_id_repeats cur,
                     cur_chain := Some (slice 72 76 line), old_molecule_number := m,
                     last_molecule_number := n\<rparr>))"
  unfolding correct_molecule_chain_def Let_def p same
  by (simp split: sum.splits)

lemma correct_molecule_chain_other:
  assumes p: "py_int (remove_spaces (slice 22 26 line)) = Inr m"
    and prev: "cur_chain cur = Some prev" and diff: "prev \<noteq> slice 72 76 line"
  shows "correct_molecule_chain cur line reset =
    (let c = increase_chain_id (chain_id cur);
         r = (if chain_id cur = ''Z'' then chain_id_repeats cur + 1 else chain_id_repeats cur)
     in case number_to_hybrid36_number (if reset then 1 else m) 4 of
          Inl e \<Rightarrow> Inl e
        | Inr s \<Rightarrow>
            Inr (slice 0 21 line @ c @ s @ slice 26 67 line @ replicate 5 (CHR '' '')
                   @ (c @ rjust 3 (CHR ''0'') (str_int r))
                   @ slice_from 76 line,
                 True,
                 cur\<lparr>chain_id := c, chain_id_repeats := r,
                     cur_chain := Some (slice 72 76 line), old_molecule_number := m,
                     last_molecule_number := 1\<rparr>))"
proof -
  have d: "Some (slice 72 76 line) \<noteq> Some prev" using diff by simp
  show ?thesis
    unfolding correct_molecule_chain_def Let_def p prev
    using d by (simp split: sum.splits)
qed

lemma correct_molecule_chain_first:
  assumes p: "py_int (remove_spaces (slice 22 26 line)) = Inr m"
    and first: "cur_chain cur = None"
  shows "correct_molecule_chain cur line reset =
    (case number_to_hybrid36_number (if reset then 1 else m) 4 of
          Inl e \<Rightarrow> Inl e
        | Inr s \<Rightarrow>
            Inr (slice 0 21 line @ chain_id cur @ s @ slice 26 67 line @ replicate 5 (CHR '' '')
                   @ (chain_id cur @ rjust 3 (CHR ''0'') (str_int (chain_id_repeats cur)))
                   @ slice_from 76 line,
                 False,
                 cur\<lparr>chain_id := chain_id cur, chain_id_repeats := chain_id_repeats cur,
                     cur_chain := Some (slice 72 76 line), old_molecule_number := m,
                     last_molecule_number := 1\<rparr>))"
  unfolding correct_molecule_chain_def Let_def p first
  by (simp split: sum.splits)

text \<open>The columns of the line \<open>correct_molecule_chain\<close> builds.\<close>

lemma chain_line_columns:
  assumes "length A = 21" "length c = 1" "length s = 4"
  shows "slice 0 21 (A @ c @ s @ M @ sp @ lab @ E) = A"
    and "slice 21 22 (A @ c @ s @ M @ sp @ lab @ E) = c"
    and "slice 22 26 (A @ c @ s @ M @ sp @ lab @ E) = s"
    and "length M = 41 \<Longrightarrow> slice 26 67 (A @ c @ s @ M @ sp @ lab @ E) = M"
    and "length M = 41 \<Longrightarrow> length sp = 5 \<Longrightarrow> slice 67 72 (A @ c @ s @ M @ sp @ lab @ E) = sp"
    and "length M = 41 \<Longrightarrow> length sp = 5 \<Longrightarrow> slice_from 72 (A @ c @ s @ M @ sp @ lab @ E) = lab @ E"
  using assms by (simp_all add: slice_def slice_from_def)

lemma valid_chain_id_length: "valid_chain_id c \<Longrightarrow> length c = 1"
  by (auto simp: valid_chain_id_def)

lemma valid_chain_id_nth: "i < 26 \<Longrightarrow> valid_chain_id [possible_chain_ids ! i]"
  unfolding valid_chain_id_def by (intro exI [of _ i]) simp

lemma valid_chain_id_A: "valid_chain_id ''A''"
  using valid_chain_id_nth [of 0] by (simp add: possible_chain_ids_def)

subsection \<open>The corrections of one atom record\<close>

lemma slice_take: "b \<le> k \<Longrightarrow> slice a b (take k s) = slice a b s"
  by (simp add: slice_def drop_take min_def)

lemma slice_eq_take: "slice 0 k s = take k s"
  by (simp add: slice_def)

lemma slice_of_prefix:
  assumes "take k s = take k s'" "b \<le> k"
  shows "slice a b s = slice a b s'"
proof -
  have "slice a b s = slice a b (take k s)" using assms(2) by (simp add: slice_take)
  also have "\<dots> = slice a b s'" unfolding assms(1) using assms(2) by (simp add: slice_take)
  finally show ?thesis .
qed

lemma take_prefix: "take k s = take k s' \<Longrightarrow> j \<le> k \<Longrightarrow> take j s = take j s'"
  by (metis min.absorb_iff2 take_take min.commute)

lemma correct_atom_stages:
  assumes "molecule_chain logic" and "correct_atom logic line cur t = Inr (line6, is_ter2, cur3)"
  shows "\<exists>line2 b cur2 line3 line5.
     correct_molecule_chain cur (if nomenclature logic then correct_nomenclature line else line)
        (reset_numbers logic) = Inr (line2, b, cur2)
   \<and> is_ter2 = Some b
   \<and> (if atom_number logic then correct_atom_number cur2 line2 else Inr (line2, cur2))
        = Inr (line3, cur3)
   \<and> (if atomtype logic
       then correct_atomtype (if occupancy logic then correct_occupancy line3 else line3)
       else Inr (if occupancy logic then correct_occupancy line3 else line3)) = Inr line5
   \<and> line6 = (if remove_H logic then remove_H_line line5 else line5)"
  using assms
  unfolding correct_atom_def Let_def
  by (auto split del: if_split split: sum.splits prod.splits)

lemma correct_molecule_chain_keeps:
  assumes "correct_molecule_chain cur line reset = Inr (newline, is_ter, cur')"
  shows "22 < length line \<and> take 21 newline = take 21 line \<and> 21 \<le> length newline
       \<and> cur_atom_number cur' = cur_atom_number cur"
proof -
  obtain m where p: "py_int (remove_spaces (slice 22 26 line)) = Inr m"
    using assms unfolding correct_molecule_chain_def Let_def
    by (cases "py_int (remove_spaces (slice 22 26 line))") simp_all
  have len: "22 < length line" using p by (rule parsed_line_length)
  have "\<exists>X. newline = slice 0 21 line @ X" and c: "cur_atom_number cur' = cur_atom_number cur"
    using assms unfolding correct_molecule_chain_def Let_def p
    by (auto split: sum.splits if_splits)
  then obtain X where nl: "newline = slice 0 21 line @ X" by blast
  have "length (slice 0 21 line) = 21" using len by (simp add: length_slice)
  then have "take 21 newline = take 21 line" "21 \<le> length newline"
    unfolding nl by (simp_all add: slice_def)
  then show ?thesis using len c by simp
qed

lemma nomcla_length_le:
  "length a \<le> 4 \<Longrightarrow> length (case map_of NOMCLA a of None \<Rightarrow> a | Some b \<Rightarrow> b) \<le> 4"
  by (simp add: NOMCLA_def)

lemma nomcla_base_length_le:
  "length a \<le> 3 \<Longrightarrow> length (case map_of NOMCLA_BASE a of None \<Rightarrow> a | Some b \<Rightarrow> b) \<le> 3"
  by (simp add: NOMCLA_BASE_def)

lemma nomcla_H:
  "CHR ''H'' \<in> set (case map_of NOMCLA a of None \<Rightarrow> a | Some b \<Rightarrow> b) \<longleftrightarrow> CHR ''H'' \<in> set a"
  by (simp add: NOMCLA_def)

lemma correct_nomenclature_keeps:
  assumes "22 < length (correct_nomenclature line)"
  shows "take 12 (correct_nomenclature line) = take 12 line
       \<and> is_hydrogen (correct_nomenclature line) = is_hydrogen line"
proof -
  define A where "A = slice 0 12 line"
  define B where "B = (case map_of NOMCLA (slice 12 16 line) of None \<Rightarrow> slice 12 16 line | Some a \<Rightarrow> a)"
  define D where "D = (case map_of NOMCLA_BASE (slice 17 20 line) of None \<Rightarrow> slice 17 20 line | Some b \<Rightarrow> b)"
  define E where "E = slice_from 20 line"
  have r: "correct_nomenclature line = A @ B @ '' '' @ D @ E"
    unfolding A_def B_def D_def E_def by (rule correct_nomenclature_eq)
  have len: "20 \<le> length line"
  proof (rule ccontr)
    assume "\<not> 20 \<le> length line"
    then have e: "E = []" by (simp add: E_def slice_from_def)
    have "length A \<le> 12" by (simp add: A_def slice_def)
    moreover have "length B \<le> 4" unfolding B_def by (intro nomcla_length_le) (simp add: slice_def)
    moreover have "length D \<le> 3" unfolding D_def by (intro nomcla_base_length_le) (simp add: slice_def)
    ultimately have "length (correct_nomenclature line) \<le> 20" unfolding r e by simp
    then show False using assms by simp
  qed
  have lA: "length A = 12" unfolding A_def using len by (simp add: length_slice)
  have lB: "length B = 4" unfolding B_def using len by (intro nomcla_length) (simp add: length_slice)
  have 1: "take 12 (correct_nomenclature line) = take 12 line"
    unfolding r using lA by (simp add: A_def slice_def)
  have "slice 12 16 (correct_nomenclature line) = B"
    unfolding r using lA lB by (simp add: slice_def)
  then have 2: "is_hydrogen (correct_nomenclature line) = is_hydrogen line"
    unfolding is_hydrogen_def B_def by (simp add: nomcla_H)
  show ?thesis using 1 2 by simp
qed

lemma slice_drop: "slice a b (slice_from k s) = slice (a + k) (b + k) s"
  by (simp add: slice_def slice_from_def add.commute)

lemma correct_atom_number_keeps:
  assumes r: "correct_atom_number cur line = Inr (line3, cur3)"
    and len: "11 \<le> length line" and at: "take 6 line = ''ATOM  ''"
  shows "take 6 line3 = ''ATOM  ''
       \<and> Inr (slice 6 11 line3) = number_to_hybrid36_number (cur_atom_number cur) 5
       \<and> slice_from 11 line3 = slice_from 11 line
       \<and> length line3 = length line
       \<and> cur_atom_number cur3 = cur_atom_number cur + 1"
proof -
  obtain s where s: "number_to_hybrid36_number (cur_atom_number cur) 5 = Inr s"
    using r unfolding correct_atom_number_def
    by (cases "number_to_hybrid36_number (cur_atom_number cur) 5") simp_all
  have ls: "length s = 5" using s by (intro hybrid36_length [of 5 _ s]) simp_all
  have l3: "line3 = slice 0 5 line @ '' '' @ s @ slice_from 11 line"
    and c: "cur_atom_number cur3 = cur_atom_number cur + 1"
    using r unfolding correct_atom_number_def s by auto
  have "take 5 (take 6 line) = ''ATOM ''" unfolding at by simp
  then have a5: "slice 0 5 line = ''ATOM ''" by (simp add: slice_def)
  have 1: "take 6 line3 = ''ATOM  ''" unfolding l3 a5 by simp
  have 2: "slice 6 11 line3 = s" unfolding l3 a5 using ls by (simp add: slice_def)
  have 3: "slice_from 11 line3 = slice_from 11 line"
    unfolding l3 a5 using ls by (simp add: slice_from_def)
  have 4: "length line3 = length line"
    unfolding l3 a5 using ls len by (simp add: slice_from_def)
  show ?thesis using 1 2 3 4 c s by simp
qed

lemma correct_occupancy_keeps:
  assumes "16 \<le> length line"
  shows "take 16 (correct_occupancy line) = take 16 line \<and> 16 \<le> length (correct_occupancy line)"
  using assms by (simp add: correct_occupancy_def slice_def)

lemma correct_atomtype_keeps:
  assumes "correct_atomtype line = Inr line5" "16 \<le> length line"
  shows "take 16 line5 = take 16 line"
proof -
  have "\<exists>X. line5 = slice 0 76 line @ X"
    using assms(1) unfolding correct_atomtype_def Let_def by (auto split: if_splits)
  then obtain X where "line5 = take 76 line @ X" by (auto simp: slice_def)
  then show ?thesis using assms(2) by simp
qed

lemma is_hydrogen_prefix: "take 16 l = take 16 l' \<Longrightarrow> is_hydrogen l = is_hydrogen l'"
  unfolding is_hydrogen_def using slice_of_prefix [of 16 l l' 16 12] by simp

lemma correct_atom_spec:
  assumes mc: "molecule_chain logic" and at: "is_atom_record line"
    and r: "correct_atom logic line cur t = Inr (line6, is_ter2, cur3)"
  shows "cur_atom_number cur3 = cur_atom_number cur + (if atom_number logic then 1 else 0)
       \<and> (\<exists>b. is_ter2 = Some b)
       \<and> (if remove_H logic \<and> is_hydrogen line then line6 = []
           else is_atom_record line6
              \<and> (atom_number logic \<longrightarrow>
                   Inr (slice 6 11 line6) = number_to_hybrid36_number (cur_atom_number cur) 5))"
proof -
  define line1 where "line1 = (if nomenclature logic then correct_nomenclature line else line)"
  obtain line2 b cur2 line3 line5 where
    s2: "correct_molecule_chain cur line1 (reset_numbers logic) = Inr (line2, b, cur2)"
    and tb: "is_ter2 = Some b"
    and s3: "(if atom_number logic then correct_atom_number cur2 line2 else Inr (line2, cur2))
               = Inr (line3, cur3)"
    and s5: "(if atomtype logic
       then correct_atomtype (if occupancy logic then correct_occupancy line3 else line3)
       else Inr (if occupancy logic then correct_occupancy line3 else line3)) = Inr line5"
    and s6: "line6 = (if remove_H logic then remove_H_line line5 else line5)"
    using correct_atom_stages [OF mc r] unfolding line1_def by blast
  have at6: "take 6 line = ''ATOM  ''" using at by (simp add: is_atom_record_def slice_def)
  \<comment> \<open>the chain correction\<close>
  have k2: "22 < length line1" "take 21 line2 = take 21 line1" "21 \<le> length line2"
    "cur_atom_number cur2 = cur_atom_number cur"
    using correct_molecule_chain_keeps [OF s2] by simp_all
  \<comment> \<open>the nomenclature\<close>
  have k1: "take 12 line1 = take 12 line \<and> is_hydrogen line1 = is_hydrogen line"
  proof (cases "nomenclature logic")
    case True
    then have "line1 = correct_nomenclature line" by (simp add: line1_def)
    then show ?thesis using k2(1) correct_nomenclature_keeps [of line] by simp
  next
    case False
    then show ?thesis by (simp add: line1_def)
  qed
  have a2: "take 6 line2 = ''ATOM  ''"
    using take_prefix [OF k2(2), of 6] take_prefix [of 12 line1 line 6] k1 at6 by simp
  have h2: "is_hydrogen line2 = is_hydrogen line"
    using is_hydrogen_prefix [OF take_prefix [OF k2(2), of 16]] k1 by simp
  \<comment> \<open>the atom number\<close>
  have k3: "take 6 line3 = ''ATOM  '' \<and> is_hydrogen line3 = is_hydrogen line \<and> 16 \<le> length line3
          \<and> cur_atom_number cur3 = cur_atom_number cur + (if atom_number logic then 1 else 0)
          \<and> (atom_number logic \<longrightarrow>
                Inr (slice 6 11 line3) = number_to_hybrid36_number (cur_atom_number cur) 5)"
  proof (cases "atom_number logic")
    case True
    then have e: "correct_atom_number cur2 line2 = Inr (line3, cur3)" using s3 by simp
    have l11: "11 \<le> length line2" using k2(3) by simp
    note k = correct_atom_number_keeps [OF e l11 a2]
    have "slice 12 16 line3 = slice 1 5 (slice_from 11 line3)" by (simp add: slice_drop)
    also have "\<dots> = slice 1 5 (slice_from 11 line2)" using k by simp
    also have "\<dots> = slice 12 16 line2" by (simp add: slice_drop)
    finally have "is_hydrogen line3 = is_hydrogen line2" by (simp add: is_hydrogen_def)
    then show ?thesis using k k2(3,4) h2 True by simp
  next
    case False
    then have "line3 = line2" "cur3 = cur2" using s3 by simp_all
    then show ?thesis using a2 h2 k2(3,4) False by simp
  qed
  \<comment> \<open>occupancy and atom type\<close>
  define line4 where "line4 = (if occupancy logic then correct_occupancy line3 else line3)"
  have k4: "take 16 line4 = take 16 line3 \<and> 16 \<le> length line4"
    using k3 correct_occupancy_keeps [of line3] by (simp add: line4_def)
  have k5: "take 16 line5 = take 16 line4"
  proof (cases "atomtype logic")
    case True
    then have "correct_atomtype line4 = Inr line5" using s5 by (simp add: line4_def)
    then show ?thesis using k4 by (intro correct_atomtype_keeps) simp_all
  next
    case False
    then show ?thesis using s5 by (simp add: line4_def)
  qed
  have p: "take 16 line5 = take 16 line3" using k4 k5 by simp
  have a5: "is_atom_record line5"
    using slice_of_prefix [OF p, of 6 0] k3 by (simp add: is_atom_record_def slice_def)
  have h5: "is_hydrogen line5 = is_hydrogen line" using is_hydrogen_prefix [OF p] k3 by simp
  have n5: "slice 6 11 line5 = slice 6 11 line3" using slice_of_prefix [OF p, of 11 6] by simp
  have 3: "if remove_H logic \<and> is_hydrogen line then line6 = []
           else is_atom_record line6
              \<and> (atom_number logic \<longrightarrow>
                   Inr (slice 6 11 line6) = number_to_hybrid36_number (cur_atom_number cur) 5)"
  proof (cases "remove_H logic \<and> is_hydrogen line")
    case True
    then have "line6 = []" using s6 h5 by (simp add: remove_H_line_def is_hydrogen_def)
    then show ?thesis using True by simp
  next
    case False
    then have "line6 = line5" using s6 h5 by (auto simp: remove_H_line_def is_hydrogen_def)
    then show ?thesis using False a5 n5 k3 by auto
  qed
  show ?thesis using k3 tb 3 by simp
qed

subsection \<open>The serials of a pass\<close>

lemma not_atom_TER: "\<not> is_atom_record TER"
  by (simp add: is_atom_record_def TER_def slice_def)

lemma not_atom_Nil: "\<not> is_atom_record []"
  by (simp add: is_atom_record_def slice_def)

lemma serial_fields_append: "serial_fields (xs @ ys) = serial_fields xs @ serial_fields ys"
  by (simp add: serial_fields_def)

lemma correct_pdb_step_spec:
  assumes mc: "molecule_chain logic \<or> \<not> is_processed line"
    and r: "correct_pdb_step logic line (cur, t, body) = Inr (cur', t', body')"
  shows "cur_atom_number cur' =
           cur_atom_number cur + (if atom_number logic \<and> is_processed line then 1 else 0)
       \<and> (atom_number logic \<longrightarrow>
            serial_fields body' = serial_fields body
              @ map (\<lambda>k. number_to_hybrid36_number k 5)
                  (if is_processed line \<and> \<not> (remove_H logic \<and> is_hydrogen line)
                   then [cur_atom_number cur] else []))"
proof (cases "is_processed line")
  case True
  then have a: "is_atom_record line" "slice 13 15 line \<noteq> ''  ''" by (simp_all add: is_processed_def)
  have m: "molecule_chain logic" using mc True by simp
  obtain line6 is_ter2 cur3 where ca: "correct_atom logic line cur t = Inr (line6, is_ter2, cur3)"
    using r correct_pdb_step_processed [OF a, of logic cur t body]
    by (cases "correct_atom logic line cur t") auto
  note sp = correct_atom_spec [OF m a(1) ca]
  then obtain b where b: "is_ter2 = Some b" by blast
  have res: "cur' = cur3" "body' = body @ (if b then [TER] else []) @ [line6]"
    using r correct_pdb_step_processed [OF a, of logic cur t body] ca b by simp_all
  have 1: "cur_atom_number cur' =
           cur_atom_number cur + (if atom_number logic \<and> is_processed line then 1 else 0)"
    using sp res(1) True by simp
  have f: "serial_fields body' = serial_fields body @ serial_fields [line6]"
    unfolding res(2) by (simp add: serial_fields_def not_atom_TER)
  have 2: "serial_fields body' = serial_fields body
              @ map (\<lambda>k. number_to_hybrid36_number k 5)
                  (if is_processed line \<and> \<not> (remove_H logic \<and> is_hydrogen line)
                   then [cur_atom_number cur] else [])"
    if an: "atom_number logic"
  proof (cases "remove_H logic \<and> is_hydrogen line")
    case True
    then have "line6 = []" using sp by simp
    then show ?thesis using f True by (simp add: serial_fields_def not_atom_Nil)
  next
    case False
    then have "is_atom_record line6"
      "Inr (slice 6 11 line6) = number_to_hybrid36_number (cur_atom_number cur) 5"
      using sp an by auto
    then show ?thesis using f False \<open>is_processed line\<close> by (auto simp: serial_fields_def)
  qed
  show ?thesis using 1 2 by simp
next
  case False
  have "cur' = cur \<and> (body' = body \<or> (body' = body @ [line] \<and> \<not> is_atom_record line))"
    using r False unfolding correct_pdb_step_def Let_def is_processed_def is_atom_record_def
    by (auto split: if_splits)
  then show ?thesis using False by (auto simp: serial_fields_def)
qed

lemma correct_pdb_loop_spec:
  assumes mc: "molecule_chain logic \<or> (\<forall>l \<in> set pdb_file. \<not> is_processed l)"
  shows "correct_pdb_loop logic pdb_file (cur, t, body) = Inr (cur', t', body') \<Longrightarrow>
         cur_atom_number cur' =
           cur_atom_number cur
           + (if atom_number logic then int (length (filter is_processed pdb_file)) else 0)
       \<and> (atom_number logic \<longrightarrow>
            serial_fields body' = serial_fields body
              @ map (\<lambda>k. number_to_hybrid36_number k 5)
                  (serials logic (cur_atom_number cur) pdb_file))"
  using mc
proof (induction pdb_file arbitrary: cur t body)
  case Nil
  then show ?case by simp
next
  case (Cons l ls)
  from Cons.prems(1) obtain st where s: "correct_pdb_step logic l (cur, t, body) = Inr st"
    and rest: "correct_pdb_loop logic ls st = Inr (cur', t', body')"
    by (auto split: sum.splits)
  obtain c1 t1 b1 where st: "st = (c1, t1, b1)" by (cases st) auto
  have m1: "molecule_chain logic \<or> \<not> is_processed l" using Cons.prems(2) by auto
  have m2: "molecule_chain logic \<or> (\<forall>l \<in> set ls. \<not> is_processed l)" using Cons.prems(2) by auto
  note h = correct_pdb_step_spec [OF m1 s [unfolded st]]
  note ih = Cons.IH [OF rest [unfolded st] m2]
  show ?case
  proof (cases "atom_number logic")
    case True
    have c: "cur_atom_number c1 = cur_atom_number cur + (if is_processed l then 1 else 0)"
      using h True by simp
    have 1: "cur_atom_number cur' = cur_atom_number cur + int (length (filter is_processed (l # ls)))"
      using ih c True by simp
    have 2: "serial_fields body' = serial_fields body
              @ map (\<lambda>k. number_to_hybrid36_number k 5) (serials logic (cur_atom_number cur) (l # ls))"
      using ih h True c by (simp add: add.commute)
    show ?thesis using 1 2 True by simp
  next
    case False
    then show ?thesis using ih h by simp
  qed
qed

lemma serials_bounds:
  "\<forall>k \<in> set (serials logic a pdb_file).
      a \<le> k \<and> k < a + int (length (filter is_processed pdb_file))"
proof (induction pdb_file arbitrary: a)
  case Nil
  then show ?case by simp
next
  case (Cons l ls)
  show ?case using Cons.IH [of a] Cons.IH [of "a + 1"] by (auto simp: Ball_def)
qed

lemma serials_sorted: "sorted_wrt (<) (serials logic a pdb_file)"
proof (induction pdb_file arbitrary: a)
  case Nil
  then show ?case by simp
next
  case (Cons l ls)
  have "\<forall>k \<in> set (serials logic (a + 1) ls). a < k"
    using serials_bounds [of logic "a + 1" ls] by auto
  then show ?case using Cons.IH [of a] Cons.IH [of "a + 1"] by simp
qed

lemma serials_all:
  "\<not> remove_H logic \<Longrightarrow>
   serials logic a pdb_file = map (\<lambda>k. a + int k) [0..<length (filter is_processed pdb_file)]"
proof (induction pdb_file arbitrary: a)
  case Nil
  then show ?case by simp
next
  case (Cons l ls)
  show ?case
  proof (cases "is_processed l")
    case True
    have "map (\<lambda>k. a + int k) [0..<Suc (length (filter is_processed ls))]
          = a # map (\<lambda>k. a + 1 + int k) [0..<length (filter is_processed ls)]"
      by (simp add: upt_conv_Cons map_Suc_upt [symmetric] del: upt_Suc)
    then show ?thesis using True Cons.prems Cons.IH [of "a + 1"] by simp
  next
    case False
    then show ?thesis using Cons.prems Cons.IH [of a] by simp
  qed
qed

subsection \<open>The whole pass\<close>





lemma correct_pdb_body_loop:
  assumes "correct_pdb_body cur pdb_file logic = Inr (body, cur')"
  shows "\<exists>t' body'.
           correct_pdb_loop logic pdb_file (cur, None, if keep_header logic then [HEADER] else [])
             = Inr (cur', t', body')
         \<and> body = body' @ [TER @ ''END'' @ [CHR 0x0A]]"
  using assms unfolding correct_pdb_body_def Let_def
  by (auto split: sum.splits)

lemma correct_pdb_body_chain:
  assumes "correct_pdb_body cur pdb_file logic = Inr (body, cur')"
  shows "molecule_chain logic \<or> (\<forall>l \<in> set pdb_file. \<not> is_processed l)"
proof (cases "molecule_chain logic")
  case True
  then show ?thesis by simp
next
  case False
  obtain t' body' where
    "correct_pdb_loop logic pdb_file (cur, None, if keep_header logic then [HEADER] else [])
       = Inr (cur', t', body')"
    using correct_pdb_body_loop [OF assms] by blast
  then show ?thesis using correct_pdb_loop_off [OF False] by blast
qed

lemma serial_fields_header: "serial_fields [HEADER] = []"
  by code_simp

lemma serial_fields_end: "serial_fields [TER @ ''END'' @ [CHR 0x0A]] = []"
  by code_simp

lemma serial_fields_start:
  "serial_fields (if keep_header logic then [HEADER] else []) = []"
  using serial_fields_header by (simp add: serial_fields_def)

lemma correct_pdb_body_spec:
  assumes r: "correct_pdb_body cur pdb_file logic = Inr (body, cur')"
  shows "cur_atom_number cur' =
           cur_atom_number cur
           + (if atom_number logic then int (length (filter is_processed pdb_file)) else 0)
       \<and> (atom_number logic \<longrightarrow>
            serial_fields body =
              map (\<lambda>k. number_to_hybrid36_number k 5)
                (serials logic (cur_atom_number cur) pdb_file))"
proof -
  obtain t' body' where
    l: "correct_pdb_loop logic pdb_file (cur, None, if keep_header logic then [HEADER] else [])
          = Inr (cur', t', body')"
    and b: "body = body' @ [TER @ ''END'' @ [CHR 0x0A]]"
    using correct_pdb_body_loop [OF r] by blast
  note sp = correct_pdb_loop_spec [OF correct_pdb_body_chain [OF r] l]
  have "serial_fields body = serial_fields body' @ serial_fields [TER @ ''END'' @ [CHR 0x0A]]"
    unfolding b by (rule serial_fields_append)
  then have "serial_fields body = serial_fields body'"
    unfolding serial_fields_end by simp
  then show ?thesis using sp by (simp add: serial_fields_start)
qed

section \<open>The claims\<close>

text \<open>
  C3. For every width \<open>w \<ge> 1\<close> the encoder raises the range error (\<open>ValueError\<close>)
  exactly when \<open>v < 1 - 10^(w-1)\<close> or \<open>v \<ge> 10^w + 2*26*36^(w-1)\<close>, and returns a
  string for every \<open>v\<close> inside that range; for width 2 it fails for every
  \<open>v \<ge> 100 + 2*26*36\<close>.
\<close>

theorem hybrid36_range_error:
  fixes v :: int and w :: nat
  assumes "1 \<le> w"
  shows "(number_to_hybrid36_number v w = Inl ValueError
            \<longleftrightarrow> v < 1 - 10 ^ (w - 1) \<or> v \<ge> 10 ^ w + 2 * 26 * 36 ^ (w - 1))
       \<and> (\<not> (v < 1 - 10 ^ (w - 1) \<or> v \<ge> 10 ^ w + 2 * 26 * 36 ^ (w - 1))
            \<longrightarrow> (\<exists>s. number_to_hybrid36_number v w = Inr s))
       \<and> (\<forall>u \<ge> 100 + 2 * 26 * 36. number_to_hybrid36_number u 2 = Inl ValueError)"
proof -
  have inside: "\<exists>s. number_to_hybrid36_number v w = Inr s"
    if "\<not> (v < 1 - 10 ^ (w - 1) \<or> v \<ge> 10 ^ w + 2 * 26 * 36 ^ (w - 1))"
  proof -
    consider "v < 10 ^ w" | "10 ^ w \<le> v" "v < 10 ^ w + 26 * 36 ^ (w - 1)"
      | "10 ^ w + 26 * 36 ^ (w - 1) \<le> v" by linarith
    then show ?thesis
    proof cases
      case 1
      then show ?thesis using that hybrid36_decimal [of w v] by simp
    next
      case 2
      then show ?thesis using hybrid36_upper [of w v] by simp
    next
      case 3
      then show ?thesis using that hybrid36_lower [of w v] by simp
    qed
  qed
  have outside: "number_to_hybrid36_number v w = Inl ValueError"
    if "v < 1 - 10 ^ (w - 1) \<or> v \<ge> 10 ^ w + 2 * 26 * 36 ^ (w - 1)"
    using that hybrid36_below [of v w] hybrid36_above [of w v] by blast
  have two: "\<forall>u \<ge> 100 + 2 * 26 * 36. number_to_hybrid36_number u 2 = Inl ValueError"
    using hybrid36_above [of 2] by simp
  show ?thesis using inside outside two by fastforce
qed

theorem hybrid36_range_error_witness:
  "number_to_hybrid36_number 87440032 5 = Inl ValueError
   \<and> number_to_hybrid36_number (- 10000) 5 = Inl ValueError
   \<and> (\<exists>s. number_to_hybrid36_number 87440031 5 = Inr s)
   \<and> number_to_hybrid36_number 1972 2 = Inl ValueError"
proof -
  have 1: "number_to_hybrid36_number 87440032 5 = Inl ValueError"
    using hybrid36_range_error [of 5 87440032] by simp
  have 2: "number_to_hybrid36_number (- 10000) 5 = Inl ValueError"
    using hybrid36_range_error [of 5 "- 10000"] by simp
  have 3: "\<exists>s. number_to_hybrid36_number 87440031 5 = Inr s"
    using hybrid36_range_error [of 5 87440031] by simp
  have 4: "number_to_hybrid36_number 1972 2 = Inl ValueError"
    using hybrid36_range_error [of 1 0] by simp
  show ?thesis using 1 2 3 4 by simp
qed

text \<open>
  C4. For every \<open>v\<close> with \<open>0 \<le> v < 10^w\<close> the encoder renders \<open>v\<close> as the
  \<open>w\<close>-character right-justified decimal string, and parsing that string as a decimal
  (with \<open>int\<close>, also after the spaces are removed as the chain correction does) gives
  \<open>v\<close> back. Beyond the decimal band every supported value is encoded in exactly \<open>w\<close>
  characters, and within each base-36 band the codes are ordered as the values are
  (the order on strings is the lexicographic order of the character codes).
\<close>

theorem hybrid36_bands:
  fixes w :: nat
  assumes "1 \<le> w"
  shows "(\<forall>v. 0 \<le> v \<and> v < 10 ^ w \<longrightarrow>
            number_to_hybrid36_number v w = Inr (rjust w (CHR '' '') (str_int v))
          \<and> length (rjust w (CHR '' '') (str_int v)) = w
          \<and> py_int (rjust w (CHR '' '') (str_int v)) = Inr v
          \<and> py_int (remove_spaces (rjust w (CHR '' '') (str_int v))) = Inr v)
       \<and> (\<forall>v. 10 ^ w \<le> v \<and> v < 10 ^ w + 2 * 26 * 36 ^ (w - 1) \<longrightarrow>
            (\<exists>s. number_to_hybrid36_number v w = Inr s \<and> length s = w))
       \<and> (\<forall>v1 v2 s1 s2.
            10 ^ w \<le> v1 \<and> v1 < v2 \<and> v2 < 10 ^ w + 26 * 36 ^ (w - 1)
            \<and> number_to_hybrid36_number v1 w = Inr s1
            \<and> number_to_hybrid36_number v2 w = Inr s2 \<longrightarrow> s1 < s2)
       \<and> (\<forall>v1 v2 s1 s2.
            10 ^ w + 26 * 36 ^ (w - 1) \<le> v1 \<and> v1 < v2 \<and> v2 < 10 ^ w + 2 * 26 * 36 ^ (w - 1)
            \<and> number_to_hybrid36_number v1 w = Inr s1
            \<and> number_to_hybrid36_number v2 w = Inr s2 \<longrightarrow> s1 < s2)"
proof -
  have d: "\<forall>v. 0 \<le> v \<and> v < 10 ^ w \<longrightarrow>
            number_to_hybrid36_number v w = Inr (rjust w (CHR '' '') (str_int v))
          \<and> length (rjust w (CHR '' '') (str_int v)) = w
          \<and> py_int (rjust w (CHR '' '') (str_int v)) = Inr v
          \<and> py_int (remove_spaces (rjust w (CHR '' '') (str_int v))) = Inr v"
  proof (intro allI impI)
    fix v :: int
    assume "0 \<le> v \<and> v < 10 ^ w"
    then have v: "0 \<le> v" "v < 10 ^ w" by simp_all
    show "number_to_hybrid36_number v w = Inr (rjust w (CHR '' '') (str_int v))
          \<and> length (rjust w (CHR '' '') (str_int v)) = w
          \<and> py_int (rjust w (CHR '' '') (str_int v)) = Inr v
          \<and> py_int (remove_spaces (rjust w (CHR '' '') (str_int v))) = Inr v"
      using hybrid36_decimal_band [OF assms v] by simp
  qed
  have b: "\<forall>v. 10 ^ w \<le> v \<and> v < 10 ^ w + 2 * 26 * 36 ^ (w - 1) \<longrightarrow>
            (\<exists>s. number_to_hybrid36_number v w = Inr s \<and> length s = w)"
  proof (intro allI impI)
    fix v :: int
    assume "10 ^ w \<le> v \<and> v < 10 ^ w + 2 * 26 * 36 ^ (w - 1)"
    then have v: "10 ^ w \<le> v" "v < 10 ^ w + 2 * 26 * 36 ^ (w - 1)" by simp_all
    show "\<exists>s. number_to_hybrid36_number v w = Inr s \<and> length s = w"
      using assms v by (rule hybrid36_band_length)
  qed
  have u: "\<forall>v1 v2 s1 s2.
            10 ^ w \<le> v1 \<and> v1 < v2 \<and> v2 < 10 ^ w + 26 * 36 ^ (w - 1)
            \<and> number_to_hybrid36_number v1 w = Inr s1
            \<and> number_to_hybrid36_number v2 w = Inr s2 \<longrightarrow> s1 < s2"
  proof (intro allI impI)
    fix v1 v2 :: int and s1 s2 :: string
    assume "10 ^ w \<le> v1 \<and> v1 < v2 \<and> v2 < 10 ^ w + 26 * 36 ^ (w - 1)
            \<and> number_to_hybrid36_number v1 w = Inr s1
            \<and> number_to_hybrid36_number v2 w = Inr s2"
    then have a: "10 ^ w \<le> v1" "v1 < v2" "v2 < 10 ^ w + 26 * 36 ^ (w - 1)"
      "number_to_hybrid36_number v1 w = Inr s1" "number_to_hybrid36_number v2 w = Inr s2"
      by simp_all
    show "s1 < s2" using assms a by (rule hybrid36_upper_less)
  qed
  have l: "\<forall>v1 v2 s1 s2.
            10 ^ w + 26 * 36 ^ (w - 1) \<le> v1 \<and> v1 < v2 \<and> v2 < 10 ^ w + 2 * 26 * 36 ^ (w - 1)
            \<and> number_to_hybrid36_number v1 w = Inr s1
            \<and> number_to_hybrid36_number v2 w = Inr s2 \<longrightarrow> s1 < s2"
  proof (intro allI impI)
    fix v1 v2 :: int and s1 s2 :: string
    assume "10 ^ w + 26 * 36 ^ (w - 1) \<le> v1 \<and> v1 < v2 \<and> v2 < 10 ^ w + 2 * 26 * 36 ^ (w - 1)
            \<and> number_to_hybrid36_number v1 w = Inr s1
            \<and> number_to_hybrid36_number v2 w = Inr s2"
    then have a: "10 ^ w + 26 * 36 ^ (w - 1) \<le> v1" "v1 < v2"
      "v2 < 10 ^ w + 2 * 26 * 36 ^ (w - 1)"
      "number_to_hybrid36_number v1 w = Inr s1" "number_to_hybrid36_number v2 w = Inr s2"
      by simp_all
    show "s1 < s2" using assms a by (rule hybrid36_lower_less)
  qed
  show ?thesis by (rule conjI [OF d conjI [OF b conjI [OF u l]]])
qed

theorem hybrid36_bands_witness:
  "number_to_hybrid36_number 42 5 = Inr ''   42''
   \<and> py_int ''   42'' = Inr 42
   \<and> (\<exists>s. number_to_hybrid36_number 100000 5 = Inr s \<and> length s = 5)
   \<and> (''A0000'' :: string) < ''A0001''
   \<and> (''a0000'' :: string) < ''zzzzz''"
proof -
  have e: "rjust 5 (CHR '' '') (str_int 42) = ''   42''" by code_simp
  have u1: "number_to_hybrid36_number 100000 5 = Inr ''A0000''" by code_simp
  have u2: "number_to_hybrid36_number 100001 5 = Inr ''A0001''" by code_simp
  have l1: "number_to_hybrid36_number 43770016 5 = Inr ''a0000''" by code_simp
  have l2: "number_to_hybrid36_number 87440031 5 = Inr ''zzzzz''" by code_simp
  have w5: "1 \<le> (5::nat)" by simp
  note h = hybrid36_bands [OF w5]
  have "(0::int) \<le> 42 \<and> (42::int) < 10 ^ 5" by simp
  then have 1: "number_to_hybrid36_number 42 5 = Inr ''   42'' \<and> py_int ''   42'' = Inr 42"
    using h [THEN conjunct1, rule_format, of 42] unfolding e by simp
  have "(10::int) ^ 5 \<le> 100000 \<and> (100000::int) < 10 ^ 5 + 2 * 26 * 36 ^ (5 - 1)" by simp
  then have 2: "\<exists>s. number_to_hybrid36_number 100000 5 = Inr s \<and> length s = 5"
    by (rule h [THEN conjunct2, THEN conjunct1, rule_format])
  have "(10::int) ^ 5 \<le> 100000 \<and> (100000::int) < 100001
        \<and> (100001::int) < 10 ^ 5 + 26 * 36 ^ (5 - 1)
        \<and> number_to_hybrid36_number 100000 5 = Inr ''A0000''
        \<and> number_to_hybrid36_number 100001 5 = Inr ''A0001''"
    using u1 u2 by simp
  then have 3: "(''A0000'' :: string) < ''A0001''"
    by (rule h [THEN conjunct2, THEN conjunct2, THEN conjunct1, rule_format])
  have "(10::int) ^ 5 + 26 * 36 ^ (5 - 1) \<le> 43770016 \<and> (43770016::int) < 87440031
        \<and> (87440031::int) < 10 ^ 5 + 2 * 26 * 36 ^ (5 - 1)
        \<and> number_to_hybrid36_number 43770016 5 = Inr ''a0000''
        \<and> number_to_hybrid36_number 87440031 5 = Inr ''zzzzz''"
    using l1 l2 by simp
  then have 4: "(''a0000'' :: string) < ''zzzzz''"
    by (rule h [THEN conjunct2, THEN conjunct2, THEN conjunct2, rule_format])
  show ?thesis using 1 2 3 4 by simp
qed

text \<open>
  C8 (as amended). On a record of at least 20 characters the nomenclature remap keeps
  the length and changes only the columns \<open>[12,20)\<close>: the atom name \<open>[12,16)\<close> and the
  residue name \<open>[17,20)\<close> are replaced by their table entries when they have one and kept
  otherwise, and column 16 between them is overwritten with a blank. Every other column
  is preserved; a record whose two names are unmapped and whose column 16 is blank is
  returned identical to the input.
\<close>

theorem correct_nomenclature_frame:
  assumes len: "20 \<le> length line"
  shows "length (correct_nomenclature line) = length line
       \<and> slice 0 12 (correct_nomenclature line) = slice 0 12 line
       \<and> slice 12 16 (correct_nomenclature line) =
           (case map_of NOMCLA (slice 12 16 line) of None \<Rightarrow> slice 12 16 line | Some a \<Rightarrow> a)
       \<and> slice 16 17 (correct_nomenclature line) = '' ''
       \<and> slice 17 20 (correct_nomenclature line) =
           (case map_of NOMCLA_BASE (slice 17 20 line) of None \<Rightarrow> slice 17 20 line | Some b \<Rightarrow> b)
       \<and> slice_from 20 (correct_nomenclature line) = slice_from 20 line
       \<and> (map_of NOMCLA (slice 12 16 line) = None \<and> map_of NOMCLA_BASE (slice 17 20 line) = None
            \<and> slice 16 17 line = '' '' \<longrightarrow> correct_nomenclature line = line)"
proof -
  define A where "A = slice 0 12 line"
  define B where "B = (case map_of NOMCLA (slice 12 16 line) of None \<Rightarrow> slice 12 16 line | Some a \<Rightarrow> a)"
  define D where "D = (case map_of NOMCLA_BASE (slice 17 20 line) of None \<Rightarrow> slice 17 20 line | Some b \<Rightarrow> b)"
  define E where "E = slice_from 20 line"
  have r: "correct_nomenclature line = A @ B @ '' '' @ D @ E"
    unfolding A_def B_def D_def E_def by (rule correct_nomenclature_eq)
  have lA: "length A = 12" unfolding A_def using len by (simp add: length_slice)
  have lB: "length B = 4" unfolding B_def using len by (intro nomcla_length) (simp add: length_slice)
  have lD: "length D = 3" unfolding D_def using len by (intro nomcla_base_length) (simp add: length_slice)
  have lE: "length E = length line - 20" unfolding E_def by (simp add: slice_from_def)
  have 1: "length (correct_nomenclature line) = length line"
    unfolding r using lA lB lD lE len by simp
  have 2: "slice 0 12 (correct_nomenclature line) = A"
    unfolding r using lA by (simp add: slice_def)
  have 3: "slice 12 16 (correct_nomenclature line) = B"
    unfolding r using lA lB by (simp add: slice_def)
  have 4: "slice 16 17 (correct_nomenclature line) = '' ''"
    unfolding r using lA lB by (simp add: slice_def)
  have 5: "slice 17 20 (correct_nomenclature line) = D"
    unfolding r using lA lB lD by (simp add: slice_def)
  have 6: "slice_from 20 (correct_nomenclature line) = E"
    unfolding r using lA lB lD by (simp add: slice_from_def)
  have 7: "correct_nomenclature line = line"
    if "map_of NOMCLA (slice 12 16 line) = None \<and> map_of NOMCLA_BASE (slice 17 20 line) = None
        \<and> slice 16 17 line = '' ''"
  proof -
    have "correct_nomenclature line =
          slice 0 12 line @ slice 12 16 line @ slice 16 17 line @ slice 17 20 line @ slice_from 20 line"
      unfolding r A_def B_def D_def E_def using that by simp
    then show ?thesis using line_columns [of line] by simp
  qed
  show ?thesis using 1 2 3 4 5 6 7 unfolding A_def B_def D_def E_def by blast
qed

theorem correct_nomenclature_frame_witness:
  "correct_nomenclature rec_P =
     ''ATOM      7  P    DA X  12      11.104   6.134  -6.504  0.00  0.00      S001 P  '' @ [CHR 0x0A]
   \<and> length (correct_nomenclature rec_P) = 81"
proof -
  have len: "20 \<le> length rec_P" by (simp add: rec_P_def)
  have v: "slice 0 12 rec_P = ''ATOM      7 '' \<and> slice 12 16 rec_P = '' P  ''
      \<and> slice 17 20 rec_P = ''ADE''
      \<and> slice_from 20 rec_P = '' X  12      11.104   6.134  -6.504  0.00  0.00      S001 P  '' @ [CHR 0x0A]"
    by code_simp
  have m: "map_of NOMCLA '' P  '' = None \<and> map_of NOMCLA_BASE ''ADE'' = Some '' DA''"
    by code_simp
  note f = correct_nomenclature_frame [OF len]
  have a: "slice 0 12 (correct_nomenclature rec_P) = ''ATOM      7 ''"
    using f v by simp
  have b: "slice 12 16 (correct_nomenclature rec_P) = '' P  ''" using f v m by simp
  have c: "slice 16 17 (correct_nomenclature rec_P) = '' ''" using f by simp
  have d: "slice 17 20 (correct_nomenclature rec_P) = '' DA''" using f v m by simp
  have e: "slice_from 20 (correct_nomenclature rec_P) =
      '' X  12      11.104   6.134  -6.504  0.00  0.00      S001 P  '' @ [CHR 0x0A]"
    using f v by simp
  have "correct_nomenclature rec_P =
        slice 0 12 (correct_nomenclature rec_P) @ slice 12 16 (correct_nomenclature rec_P)
        @ slice 16 17 (correct_nomenclature rec_P) @ slice 17 20 (correct_nomenclature rec_P)
        @ slice_from 20 (correct_nomenclature rec_P)"
    by (rule line_columns)
  then have 1: "correct_nomenclature rec_P =
     ''ATOM      7  P    DA X  12      11.104   6.134  -6.504  0.00  0.00      S001 P  '' @ [CHR 0x0A]"
    unfolding a b c d e by simp
  have 2: "length (correct_nomenclature rec_P) = 81" using f by (simp add: rec_P_def)
  show ?thesis using 1 2 by simp
qed

text \<open>
  The claim as stated fails at a record with an alternate-location letter in column 16:
  both names are unmapped, and yet the record is changed.
\<close>

theorem correct_nomenclature_column16_counterexample:
  "map_of NOMCLA (slice 12 16 rec_alt) = None
   \<and> map_of NOMCLA_BASE (slice 17 20 rec_alt) = None
   \<and> slice 16 17 rec_alt = ''A''
   \<and> slice 16 17 (correct_nomenclature rec_alt) = '' ''
   \<and> correct_nomenclature rec_alt \<noteq> rec_alt"
  by code_simp

text \<open>
  C1. The claim asks the pass to complete for every combination of the flags, in
  particular with the chain correction disabled. The code does not: \<open>is_ter\<close> is
  assigned only inside \<open>if logic.molecule_chain\<close>, so with the flag off the first atom
  record that is not skipped ends the pass with an exception (\<open>UnboundLocalError\<close> at
  \<open>if is_ter\<close>, unless an earlier correction has already failed).
\<close>

theorem correct_pdb_chain_disabled:
  assumes "\<not> molecule_chain logic" and "\<exists>l \<in> set pdb_file. is_processed l"
  shows "\<exists>e. correct_pdb cur pdb_file logic = Inl e"
proof (cases "correct_pdb_loop logic pdb_file (cur, None, if keep_header logic then [HEADER] else [])")
  case (Inl e)
  then show ?thesis by (simp add: correct_pdb_def correct_pdb_body_def)
next
  case (Inr st)
  obtain c1 t1 b1 where st: "st = (c1, t1, b1)" by (cases st) auto
  have "\<forall>l \<in> set pdb_file. \<not> is_processed l"
    using correct_pdb_loop_off [OF assms(1)] Inr st by blast
  then show ?thesis using assms(2) by blast
qed

theorem correct_pdb_chain_disabled_witness:
  "(\<exists>e. correct_pdb attrs_post_init [rec_P] (Logic_default\<lparr>molecule_chain := False\<rparr>) = Inl e)
   \<and> correct_pdb attrs_post_init [rec_P] (Logic_default\<lparr>molecule_chain := False\<rparr>)
       = Inl UnboundLocalError
   \<and> \<not> isl (correct_pdb attrs_post_init [rec_P] Logic_default)"
proof -
  have off: "\<not> molecule_chain (Logic_default\<lparr>molecule_chain := False\<rparr>)" by simp
  have p: "is_processed rec_P" by code_simp
  then have ex: "\<exists>l \<in> set [rec_P]. is_processed l" by simp
  have 1: "\<exists>e. correct_pdb attrs_post_init [rec_P] (Logic_default\<lparr>molecule_chain := False\<rparr>) = Inl e"
    using off ex by (rule correct_pdb_chain_disabled)
  have 2: "correct_pdb attrs_post_init [rec_P] (Logic_default\<lparr>molecule_chain := False\<rparr>)
       = Inl UnboundLocalError" by code_simp
  have 3: "\<not> isl (correct_pdb attrs_post_init [rec_P] Logic_default)" by code_simp
  show ?thesis using 1 2 3 by simp
qed

text \<open>
  C9 (as amended). The skip test of \<open>correct_pdb\<close> reads the columns \<open>[13,15)\<close> only.
  An atom record with blanks in both is skipped silently: the loop state is unchanged
  and the pass gives the same result as without the record; a record whose atom name
  \<open>[12,16)\<close> is blank is one of these. An atom record with a character in column 13 or
  14 is never skipped: with the chain correction enabled it goes through the enabled
  corrections (\<open>correct_atom\<close>), an error of a correction ends the pass, and otherwise
  the corrected record is appended to the output, after a terminator when one is marked.
\<close>

theorem blank_name_skip:
  assumes "is_atom_record line"
  shows "(slice 13 15 line = ''  '' \<longrightarrow>
            correct_pdb_step logic line st = Inr st
          \<and> correct_pdb cur (xs @ line # ys) logic = correct_pdb cur (xs @ ys) logic)
       \<and> (slice 12 16 line = ''    '' \<longrightarrow> slice 13 15 line = ''  '')
       \<and> (slice 13 15 line \<noteq> ''  '' \<and> molecule_chain logic \<longrightarrow>
            correct_pdb_step logic line (c, t, body) =
              (case correct_atom logic line c t of
                 Inl e \<Rightarrow> Inl e
               | Inr (line6, is_ter2, cur3) \<Rightarrow>
                   Inr (cur3, is_ter2, body @ (if is_ter2 = Some True then [TER] else []) @ [line6])))"
proof -
  have 1: "correct_pdb_step logic line st = Inr st
          \<and> correct_pdb cur (xs @ line # ys) logic = correct_pdb cur (xs @ ys) logic"
    if "slice 13 15 line = ''  ''"
    using correct_pdb_step_skip [OF assms that] correct_pdb_skip [OF assms that] by simp
  have 2: "slice 13 15 line = ''  ''" if "slice 12 16 line = ''    ''"
  proof -
    have "slice 13 15 line = slice 1 3 (slice 12 16 line)" by (simp add: slice_slice)
    then show ?thesis unfolding that by (simp add: slice_def)
  qed
  have 3: "correct_pdb_step logic line (c, t, body) =
              (case correct_atom logic line c t of
                 Inl e \<Rightarrow> Inl e
               | Inr (line6, is_ter2, cur3) \<Rightarrow>
                   Inr (cur3, is_ter2, body @ (if is_ter2 = Some True then [TER] else []) @ [line6]))"
    if h: "slice 13 15 line \<noteq> ''  '' \<and> molecule_chain logic"
  proof -
    have nb: "slice 13 15 line \<noteq> ''  ''" and mc: "molecule_chain logic" using h by simp_all
    note step = correct_pdb_step_processed [OF assms nb, of logic c t body]
    show ?thesis
    proof (cases "correct_atom logic line c t")
      case (Inl e)
      then show ?thesis using step by simp
    next
      case (Inr x)
      obtain l6 t2 c3 where x: "x = (l6, t2, c3)" by (cases x) auto
      have "\<exists>b. t2 = Some b" using mc Inr [unfolded x] by (rule correct_atom_is_ter)
      then obtain b where "t2 = Some b" by (elim exE)
      then show ?thesis using step Inr x by simp
    qed
  qed
  show ?thesis using 1 2 3 by blast
qed

theorem blank_name_skip_witness:
  "correct_pdb_step Logic_default
     (''ATOM      7       DA X  12      11.104   6.134  -6.504  0.00  0.00      S001    '' @ [CHR 0x0A])
     (attrs_post_init, None, [HEADER]) = Inr (attrs_post_init, None, [HEADER])
   \<and> correct_pdb_step Logic_default rec_P (attrs_post_init, None, [HEADER]) =
       Inr (\<lparr>cur_atom_number = 2, old_molecule_number = 12, last_molecule_number = 1,
             chain_id = ''A'', chain_id_repeats = 1, cur_chain = Some ''S001''\<rparr>,
            Some False,
            [HEADER,
             ''ATOM      1  P    DA A   1      11.104   6.134  -6.504  1.00  0.00      A001 P  '' @ [CHR 0x0A]])"
proof -
  let ?b = "''ATOM      7       DA X  12      11.104   6.134  -6.504  0.00  0.00      S001    '' @ [CHR 0x0A]"
  have a: "is_atom_record ?b" "slice 13 15 ?b = ''  ''" by code_simp+
  have 1: "correct_pdb_step Logic_default ?b (attrs_post_init, None, [HEADER])
           = Inr (attrs_post_init, None, [HEADER])"
    using blank_name_skip [OF a(1), of Logic_default "(attrs_post_init, None, [HEADER])"] a(2)
    by simp
  have p: "is_atom_record rec_P" "slice 13 15 rec_P \<noteq> ''  ''" "molecule_chain Logic_default"
    by code_simp+
  have ca: "correct_atom Logic_default rec_P attrs_post_init None =
      Inr (''ATOM      1  P    DA A   1      11.104   6.134  -6.504  1.00  0.00      A001 P  '' @ [CHR 0x0A],
           Some False,
           \<lparr>cur_atom_number = 2, old_molecule_number = 12, last_molecule_number = 1,
             chain_id = ''A'', chain_id_repeats = 1, cur_chain = Some ''S001''\<rparr>)"
    by code_simp
  have 2: "correct_pdb_step Logic_default rec_P (attrs_post_init, None, [HEADER]) =
       Inr (\<lparr>cur_atom_number = 2, old_molecule_number = 12, last_molecule_number = 1,
             chain_id = ''A'', chain_id_repeats = 1, cur_chain = Some ''S001''\<rparr>,
            Some False,
            [HEADER,
             ''ATOM      1  P    DA A   1      11.104   6.134  -6.504  1.00  0.00      A001 P  '' @ [CHR 0x0A]])"
    using blank_name_skip [OF p(1), of Logic_default _ _ _ _ attrs_post_init None "[HEADER]"] p(2,3)
    unfolding ca by simp
  show ?thesis using 1 2 by simp
qed

text \<open>
  The claim as stated fails at a record whose atom name is not blank but stands outside
  the columns 13 and 14: it is skipped.
\<close>

theorem blank_name_skip_counterexample:
  "is_atom_record rec_left
   \<and> slice 12 16 rec_left = ''C   ''
   \<and> correct_pdb_step Logic_default rec_left (attrs_post_init, None, [HEADER])
       = Inr (attrs_post_init, None, [HEADER])
   \<and> correct_pdb attrs_post_init [rec_left] Logic_default
       = correct_pdb attrs_post_init [] Logic_default"
  by code_simp

text \<open>
  C5. A record whose segment identifier \<open>[72,76)\<close> equals the one of the previous
  record, with input residue number \<open>m\<close>: the chain correction returns exactly when the
  residue number to write is encodable in four characters, and then: if \<open>m\<close> equals
  the previous input residue number, the previous output residue number is reused and no
  terminator is marked; if it is one more, the output residue number is the previous
  output plus 1 and no terminator is marked; otherwise it is the previous output plus 10
  and a terminator is marked. The chain letter and the repeat counter are kept, the chain
  letter stands in column 21, and the columns \<open>[22,26)\<close> hold the encoding of the output
  residue number (with \<open>reset_numbers\<close>) or of \<open>m\<close> (without).
\<close>

theorem same_segment_renumbering:
  assumes p: "py_int (remove_spaces (slice 22 26 line)) = Inr m"
    and same: "cur_chain cur = Some (slice 72 76 line)"
    and v: "valid_chain_id (chain_id cur)"
  shows "((\<exists>r. correct_molecule_chain cur line reset = Inr r) \<longleftrightarrow>
          (\<exists>s. number_to_hybrid36_number
                 (if reset
                  then fst (spec_same_segment (old_molecule_number cur) (last_molecule_number cur) m)
                  else m) 4 = Inr s))
       \<and> (\<forall>newline is_ter cur'.
            correct_molecule_chain cur line reset = Inr (newline, is_ter, cur') \<longrightarrow>
              (m = old_molecule_number cur \<longrightarrow>
                 last_molecule_number cur' = last_molecule_number cur \<and> \<not> is_ter)
            \<and> (m = old_molecule_number cur + 1 \<longrightarrow>
                 last_molecule_number cur' = last_molecule_number cur + 1 \<and> \<not> is_ter)
            \<and> (m \<noteq> old_molecule_number cur \<and> m \<noteq> old_molecule_number cur + 1 \<longrightarrow>
                 last_molecule_number cur' = last_molecule_number cur + 10 \<and> is_ter)
            \<and> (last_molecule_number cur', is_ter)
                 = spec_same_segment (old_molecule_number cur) (last_molecule_number cur) m
            \<and> chain_id cur' = chain_id cur
            \<and> chain_id_repeats cur' = chain_id_repeats cur
            \<and> old_molecule_number cur' = m
            \<and> cur_chain cur' = Some (slice 72 76 line)
            \<and> slice 21 22 newline = chain_id cur
            \<and> Inr (slice 22 26 newline) =
                 number_to_hybrid36_number (if reset then last_molecule_number cur' else m) 4)"
proof -
  let ?n = "if m = old_molecule_number cur then last_molecule_number cur
            else if m = old_molecule_number cur + 1 then last_molecule_number cur + 1
            else last_molecule_number cur + 10"
  have n: "fst (spec_same_segment (old_molecule_number cur) (last_molecule_number cur) m) = ?n"
    by (simp add: spec_same_segment_def)
  note eq = correct_molecule_chain_same [OF p same, of reset, unfolded Let_def]
  have A: "(\<exists>r. correct_molecule_chain cur line reset = Inr r) \<longleftrightarrow>
          (\<exists>s. number_to_hybrid36_number (if reset then ?n else m) 4 = Inr s)"
    unfolding eq by (cases "number_to_hybrid36_number (if reset then ?n else m) 4") simp_all
  have len: "length (slice 0 21 line) = 21"
    using parsed_line_length [OF p] by (simp add: length_slice)
  have lc: "length (chain_id cur) = 1" using v by (rule valid_chain_id_length)
  have B: "(m = old_molecule_number cur \<longrightarrow>
                 last_molecule_number cur' = last_molecule_number cur \<and> \<not> is_ter)
            \<and> (m = old_molecule_number cur + 1 \<longrightarrow>
                 last_molecule_number cur' = last_molecule_number cur + 1 \<and> \<not> is_ter)
            \<and> (m \<noteq> old_molecule_number cur \<and> m \<noteq> old_molecule_number cur + 1 \<longrightarrow>
                 last_molecule_number cur' = last_molecule_number cur + 10 \<and> is_ter)
            \<and> (last_molecule_number cur', is_ter)
                 = spec_same_segment (old_molecule_number cur) (last_molecule_number cur) m
            \<and> chain_id cur' = chain_id cur
            \<and> chain_id_repeats cur' = chain_id_repeats cur
            \<and> old_molecule_number cur' = m
            \<and> cur_chain cur' = Some (slice 72 76 line)
            \<and> slice 21 22 newline = chain_id cur
            \<and> Inr (slice 22 26 newline) =
                 number_to_hybrid36_number (if reset then last_molecule_number cur' else m) 4"
    if r: "correct_molecule_chain cur line reset = Inr (newline, is_ter, cur')"
    for newline is_ter cur'
  proof -
    obtain s where s: "number_to_hybrid36_number (if reset then ?n else m) 4 = Inr s"
      using A r by blast
    have ls: "length s = 4" using s by (intro hybrid36_length [of 4 _ s]) simp_all
    have nl: "newline = slice 0 21 line @ chain_id cur @ s @ slice 26 67 line
                 @ replicate 5 (CHR '' '')
                 @ (chain_id cur @ rjust 3 (CHR ''0'') (str_int (chain_id_repeats cur)))
                 @ slice_from 76 line"
      and t: "is_ter = (m \<noteq> old_molecule_number cur \<and> m \<noteq> old_molecule_number cur + 1)"
      and c: "cur' = cur\<lparr>chain_id := chain_id cur, chain_id_repeats := chain_id_repeats cur,
                     cur_chain := Some (slice 72 76 line), old_molecule_number := m,
                     last_molecule_number := ?n\<rparr>"
      using r unfolding eq s by simp_all
    have l: "last_molecule_number cur' = ?n" unfolding c by simp
    have c1: "slice 21 22 newline = chain_id cur"
      unfolding nl using len lc ls by (rule chain_line_columns(2))
    have c2: "slice 22 26 newline = s"
      unfolding nl using len lc ls by (rule chain_line_columns(3))
    have e: "Inr (slice 22 26 newline) =
                 number_to_hybrid36_number (if reset then last_molecule_number cur' else m) 4"
      unfolding c2 l using s by simp
    have sp: "(last_molecule_number cur', is_ter)
                 = spec_same_segment (old_molecule_number cur) (last_molecule_number cur) m"
      unfolding l t by (simp add: spec_same_segment_def)
    have st: "chain_id cur' = chain_id cur" "chain_id_repeats cur' = chain_id_repeats cur"
      "old_molecule_number cur' = m" "cur_chain cur' = Some (slice 72 76 line)"
      unfolding c by simp_all
    show ?thesis using l t c1 e sp st by simp
  qed
  show ?thesis unfolding n using A B by blast
qed

theorem same_segment_renumbering_witness:
  "correct_molecule_chain cur_after_P rec_H True =
     Inr (''ATOM      9  H61 ADE A  11      11.104   6.134  -6.504  0.00  0.00      A001 H  '' @ [CHR 0x0A],
          True,
          cur_after_P\<lparr>old_molecule_number := 14, last_molecule_number := 11\<rparr>)
   \<and> last_molecule_number (cur_after_P\<lparr>old_molecule_number := 14, last_molecule_number := 11\<rparr>)
       = last_molecule_number cur_after_P + 10"
proof -
  let ?nl = "''ATOM      9  H61 ADE A  11      11.104   6.134  -6.504  0.00  0.00      A001 H  '' @ [CHR 0x0A]"
  let ?c = "cur_after_P\<lparr>old_molecule_number := 14, last_molecule_number := 11\<rparr>"
  have p: "py_int (remove_spaces (slice 22 26 rec_H)) = Inr 14" by code_simp
  have same: "cur_chain cur_after_P = Some (slice 72 76 rec_H)" by code_simp
  have v: "valid_chain_id (chain_id cur_after_P)"
    using valid_chain_id_A by (simp add: cur_after_P_def)
  have r: "correct_molecule_chain cur_after_P rec_H True = Inr (?nl, True, ?c)" by code_simp
  have g: "(14::int) \<noteq> old_molecule_number cur_after_P \<and> (14::int) \<noteq> old_molecule_number cur_after_P + 1"
    by (simp add: cur_after_P_def)
  have "last_molecule_number ?c = last_molecule_number cur_after_P + 10"
    using same_segment_renumbering [OF p same v, of True, THEN conjunct2, rule_format, OF r] g
    by blast
  then show ?thesis using r by simp
qed

text \<open>
  C6 (as amended). A record whose segment identifier differs from the one of the
  previous record, in a state whose chain letter is the \<open>i\<close>-th of the 26 letters: the
  chain correction returns exactly when the residue number to write is encodable, and
  then a terminator is marked, the output residue number is 1, and the chain letter
  advances to the next letter; from the last letter \<open>Z\<close> it wraps to the second letter
  \<open>B\<close> and the repeat counter is incremented (otherwise the counter is kept). The new
  letter is never \<open>A\<close> and stands in column 21; on a record of at least 67 columns the
  columns \<open>[67,72)\<close> are blank and the label from column 72 on is the chain letter
  followed by the repeat counter, right-justified with zeros to a width of at least 3:
  exactly three digits while the counter is below 1000, and all the digits of the counter
  from 1000 on.
\<close>

theorem other_segment_renumbering:
  assumes p: "py_int (remove_spaces (slice 22 26 line)) = Inr m"
    and prev: "cur_chain cur = Some prev" and diff: "prev \<noteq> slice 72 76 line"
    and i: "i < 26" and cid: "chain_id cur = [possible_chain_ids ! i]"
  shows "((\<exists>r. correct_molecule_chain cur line reset = Inr r) \<longleftrightarrow>
          (\<exists>s. number_to_hybrid36_number (if reset then 1 else m) 4 = Inr s))
       \<and> ((chain_id cur = ''Z'') = (i = 25))
       \<and> (\<forall>newline is_ter cur'.
            correct_molecule_chain cur line reset = Inr (newline, is_ter, cur') \<longrightarrow>
              is_ter
            \<and> last_molecule_number cur' = 1
            \<and> old_molecule_number cur' = m
            \<and> cur_chain cur' = Some (slice 72 76 line)
            \<and> (i < 25 \<longrightarrow> chain_id cur' = [possible_chain_ids ! (i + 1)]
                           \<and> chain_id_repeats cur' = chain_id_repeats cur)
            \<and> (i = 25 \<longrightarrow> chain_id cur' = ''B''
                           \<and> chain_id_repeats cur' = chain_id_repeats cur + 1)
            \<and> chain_id cur' \<noteq> ''A''
            \<and> valid_chain_id (chain_id cur')
            \<and> slice 21 22 newline = chain_id cur'
            \<and> Inr (slice 22 26 newline) = number_to_hybrid36_number (if reset then 1 else m) 4
            \<and> (67 \<le> length line \<longrightarrow>
                  slice 67 72 newline = replicate 5 (CHR '' '')
                \<and> slice_from 72 newline =
                    chain_id cur' @ rjust 3 (CHR ''0'') (str_int (chain_id_repeats cur'))
                    @ slice_from 76 line)
            \<and> (0 \<le> chain_id_repeats cur' \<and> chain_id_repeats cur' < 1000 \<longrightarrow>
                  length (rjust 3 (CHR ''0'') (str_int (chain_id_repeats cur'))) = 3))"
proof -
  let ?j = "if i < 25 then i + 1 else 1"
  let ?c = "[possible_chain_ids ! ?j]"
  let ?r = "if i = 25 then chain_id_repeats cur + 1 else chain_id_repeats cur"
  have z: "(chain_id cur = ''Z'') = (i = 25)" unfolding cid using i by (rule chain_letter_Z)
  have inc: "increase_chain_id (chain_id cur) = ?c"
    unfolding cid using i by (rule increase_chain_id_nth)
  have j: "?j < 26" "0 < ?j" using i by simp_all
  note eq = correct_molecule_chain_other [OF p prev diff, of reset, unfolded Let_def inc z]
  have A: "(\<exists>r. correct_molecule_chain cur line reset = Inr r) \<longleftrightarrow>
          (\<exists>s. number_to_hybrid36_number (if reset then 1 else m) 4 = Inr s)"
    unfolding eq by (cases "number_to_hybrid36_number (if reset then 1 else m) 4") auto
  have len: "length (slice 0 21 line) = 21"
    using parsed_line_length [OF p] by (simp add: length_slice)
  have lc: "length ?c = 1" by simp
  have B: "is_ter
            \<and> last_molecule_number cur' = 1
            \<and> old_molecule_number cur' = m
            \<and> cur_chain cur' = Some (slice 72 76 line)
            \<and> (i < 25 \<longrightarrow> chain_id cur' = [possible_chain_ids ! (i + 1)]
                           \<and> chain_id_repeats cur' = chain_id_repeats cur)
            \<and> (i = 25 \<longrightarrow> chain_id cur' = ''B''
                           \<and> chain_id_repeats cur' = chain_id_repeats cur + 1)
            \<and> chain_id cur' \<noteq> ''A''
            \<and> valid_chain_id (chain_id cur')
            \<and> slice 21 22 newline = chain_id cur'
            \<and> Inr (slice 22 26 newline) = number_to_hybrid36_number (if reset then 1 else m) 4
            \<and> (67 \<le> length line \<longrightarrow>
                  slice 67 72 newline = replicate 5 (CHR '' '')
                \<and> slice_from 72 newline =
                    chain_id cur' @ rjust 3 (CHR ''0'') (str_int (chain_id_repeats cur'))
                    @ slice_from 76 line)
            \<and> (0 \<le> chain_id_repeats cur' \<and> chain_id_repeats cur' < 1000 \<longrightarrow>
                  length (rjust 3 (CHR ''0'') (str_int (chain_id_repeats cur'))) = 3)"
    if r: "correct_molecule_chain cur line reset = Inr (newline, is_ter, cur')"
    for newline is_ter cur'
  proof -
    obtain s where s: "number_to_hybrid36_number (if reset then 1 else m) 4 = Inr s"
      using A r by blast
    have ls: "length s = 4" using s by (intro hybrid36_length [of 4 _ s]) simp_all
    have nl: "newline = slice 0 21 line @ ?c @ s @ slice 26 67 line
                 @ replicate 5 (CHR '' '')
                 @ (?c @ rjust 3 (CHR ''0'') (str_int ?r))
                 @ slice_from 76 line"
      and t: "is_ter"
      and c: "cur' = cur\<lparr>chain_id := ?c, chain_id_repeats := ?r,
                     cur_chain := Some (slice 72 76 line), old_molecule_number := m,
                     last_molecule_number := 1\<rparr>"
      using r unfolding eq s by simp_all
    have st: "last_molecule_number cur' = 1" "old_molecule_number cur' = m"
      "cur_chain cur' = Some (slice 72 76 line)" "chain_id cur' = ?c" "chain_id_repeats cur' = ?r"
      unfolding c by simp_all
    have n1: "i < 25 \<longrightarrow> chain_id cur' = [possible_chain_ids ! (i + 1)]
                           \<and> chain_id_repeats cur' = chain_id_repeats cur"
      unfolding st by simp
    have n2: "i = 25 \<longrightarrow> chain_id cur' = ''B''
                           \<and> chain_id_repeats cur' = chain_id_repeats cur + 1"
      unfolding st using chain_letter_B by simp
    have na: "chain_id cur' \<noteq> ''A''" unfolding st using j by (rule chain_letter_not_A)
    have va: "valid_chain_id (chain_id cur')" unfolding st using j(1) by (rule valid_chain_id_nth)
    have c1: "slice 21 22 newline = chain_id cur'"
      unfolding nl st using len lc ls by (rule chain_line_columns(2))
    have c2: "slice 22 26 newline = s"
      unfolding nl using len lc ls by (rule chain_line_columns(3))
    have e: "Inr (slice 22 26 newline) = number_to_hybrid36_number (if reset then 1 else m) 4"
      unfolding c2 using s by simp
    have lab: "slice 67 72 newline = replicate 5 (CHR '' '')
                \<and> slice_from 72 newline =
                    chain_id cur' @ rjust 3 (CHR ''0'') (str_int (chain_id_repeats cur'))
                    @ slice_from 76 line"
      if l67: "67 \<le> length line"
    proof -
      have lm: "length (slice 26 67 line) = 41" using l67 by (simp add: length_slice)
      have l5: "length (replicate 5 (CHR '' '')) = 5" by simp
      have 1: "slice 67 72 newline = replicate 5 (CHR '' '')"
        unfolding nl using len lc ls lm l5 by (rule chain_line_columns(5))
      have 2: "slice_from 72 newline = (?c @ rjust 3 (CHR ''0'') (str_int ?r)) @ slice_from 76 line"
        unfolding nl using len lc ls lm l5 by (rule chain_line_columns(6))
      show ?thesis using 1 2 unfolding st by simp
    qed
    have l3: "length (rjust 3 (CHR ''0'') (str_int (chain_id_repeats cur'))) = 3"
      if "0 \<le> chain_id_repeats cur' \<and> chain_id_repeats cur' < 1000"
      using that by (intro length_repeats_label) simp_all
    show ?thesis using t st(1-3) n1 n2 na va c1 e lab l3 by blast
  qed
  show ?thesis using A z B by blast
qed

theorem other_segment_renumbering_witness:
  "correct_molecule_chain cur_after_P rec_H2 True =
     Inr (''ATOM     10  H2  THY B   1      11.104   6.134  -6.504  0.00  0.00      B001 H  '' @ [CHR 0x0A],
          True,
          \<lparr>cur_atom_number = 2, old_molecule_number = 1, last_molecule_number = 1,
           chain_id = ''B'', chain_id_repeats = 1, cur_chain = Some ''S002''\<rparr>)
   \<and> correct_molecule_chain (cur_after_P\<lparr>chain_id := ''Z''\<rparr>) rec_H2 True =
     Inr (''ATOM     10  H2  THY B   1      11.104   6.134  -6.504  0.00  0.00      B002 H  '' @ [CHR 0x0A],
          True,
          \<lparr>cur_atom_number = 2, old_molecule_number = 1, last_molecule_number = 1,
           chain_id = ''B'', chain_id_repeats = 2, cur_chain = Some ''S002''\<rparr>)
   \<and> chain_id_repeats
        \<lparr>cur_atom_number = 2, old_molecule_number = 1, last_molecule_number = 1,
         chain_id = ''B'', chain_id_repeats = 2, cur_chain = Some ''S002''\<rparr>
       = chain_id_repeats (cur_after_P\<lparr>chain_id := ''Z''\<rparr>) + 1"
proof -
  let ?cz = "cur_after_P\<lparr>chain_id := ''Z''\<rparr>"
  let ?c2 = "\<lparr>cur_atom_number = 2, old_molecule_number = 1, last_molecule_number = 1,
           chain_id = ''B'', chain_id_repeats = 2, cur_chain = Some ''S002''\<rparr>"
  let ?nl2 = "''ATOM     10  H2  THY B   1      11.104   6.134  -6.504  0.00  0.00      B002 H  '' @ [CHR 0x0A]"
  have p: "py_int (remove_spaces (slice 22 26 rec_H2)) = Inr 1" by code_simp
  have prev: "cur_chain ?cz = Some ''S001''" by (simp add: cur_after_P_def)
  have diff: "''S001'' \<noteq> slice 72 76 rec_H2" by code_simp
  have i: "(25::nat) < 26" by simp
  have cid: "chain_id ?cz = [possible_chain_ids ! 25]" by (simp add: possible_chain_ids_def)
  have r1: "correct_molecule_chain cur_after_P rec_H2 True =
     Inr (''ATOM     10  H2  THY B   1      11.104   6.134  -6.504  0.00  0.00      B001 H  '' @ [CHR 0x0A],
          True,
          \<lparr>cur_atom_number = 2, old_molecule_number = 1, last_molecule_number = 1,
           chain_id = ''B'', chain_id_repeats = 1, cur_chain = Some ''S002''\<rparr>)"
    by code_simp
  have r2: "correct_molecule_chain ?cz rec_H2 True = Inr (?nl2, True, ?c2)" by code_simp
  have "chain_id_repeats ?c2 = chain_id_repeats ?cz + 1"
    using other_segment_renumbering [OF p prev diff i cid, of True,
        THEN conjunct2, THEN conjunct2, rule_format, OF r2]
    by blast
  then show ?thesis using r1 r2 by simp
qed

text \<open>
  The claim as stated (a 3-digit suffix) fails when the counter reaches 1000: on a wrap
  from \<open>Z\<close> with the counter at 999 the label is \<open>B1000\<close>, the suffix has four digits
  and the record is one character longer than the input.
\<close>

theorem repeat_counter_suffix_counterexample:
  "correct_molecule_chain (cur_after_P\<lparr>chain_id := ''Z'', chain_id_repeats := 999\<rparr>) rec_H2 True =
     Inr (''ATOM     10  H2  THY B   1      11.104   6.134  -6.504  0.00  0.00      B1000 H  '' @ [CHR 0x0A],
          True,
          \<lparr>cur_atom_number = 2, old_molecule_number = 1, last_molecule_number = 1,
           chain_id = ''B'', chain_id_repeats = 1000, cur_chain = Some ''S002''\<rparr>)
   \<and> rjust 3 (CHR ''0'') (str_int 1000) = ''1000''
   \<and> length (rjust 3 (CHR ''0'') (str_int 1000)) \<noteq> 3
   \<and> length rec_H2 = 81
   \<and> length (''ATOM     10  H2  THY B   1      11.104   6.134  -6.504  0.00  0.00      B1000 H  '' @ [CHR 0x0A]) = 82"
  by code_simp

text \<open>
  C2 (as amended). With atom-number renumbering enabled, a completed pass writes into
  the serial columns \<open>[6,11)\<close> of the atom records it emits the width-5 hybrid36
  encodings of the values a counter takes. The counter starts at the corrector's atom
  counter (1 on a fresh corrector) and is incremented once for every atom record that
  passes the blank-name check, before hydrogen removal: a record skipped by the
  blank-name check takes no value, a record dropped by hydrogen removal takes one that
  then does not appear. So the emitted serials are strictly increasing and lie between
  the start and the start plus the number of processed records; they are consecutive
  when hydrogen removal is off; the input serials play no part. After the pass the
  counter has advanced by the number of processed records.
\<close>

theorem atom_serials:
  assumes an: "atom_number logic"
    and r: "correct_pdb_body cur pdb_file logic = Inr (body, cur')"
  shows "serial_fields body =
           map (\<lambda>k. number_to_hybrid36_number k 5) (serials logic (cur_atom_number cur) pdb_file)
       \<and> sorted_wrt (<) (serials logic (cur_atom_number cur) pdb_file)
       \<and> (\<forall>k \<in> set (serials logic (cur_atom_number cur) pdb_file).
             cur_atom_number cur \<le> k
           \<and> k < cur_atom_number cur + int (length (filter is_processed pdb_file)))
       \<and> (\<not> remove_H logic \<longrightarrow>
             serials logic (cur_atom_number cur) pdb_file =
               map (\<lambda>k. cur_atom_number cur + int k) [0..<length (filter is_processed pdb_file)])
       \<and> cur_atom_number cur' = cur_atom_number cur + int (length (filter is_processed pdb_file))
       \<and> cur_atom_number attrs_post_init = 1"
proof -
  note sp = correct_pdb_body_spec [OF r]
  have 1: "serial_fields body =
           map (\<lambda>k. number_to_hybrid36_number k 5) (serials logic (cur_atom_number cur) pdb_file)"
    using sp an by simp
  have 2: "sorted_wrt (<) (serials logic (cur_atom_number cur) pdb_file)"
    by (rule serials_sorted)
  have 3: "\<forall>k \<in> set (serials logic (cur_atom_number cur) pdb_file).
             cur_atom_number cur \<le> k
           \<and> k < cur_atom_number cur + int (length (filter is_processed pdb_file))"
    by (rule serials_bounds)
  have 4: "\<not> remove_H logic \<longrightarrow>
             serials logic (cur_atom_number cur) pdb_file =
               map (\<lambda>k. cur_atom_number cur + int k) [0..<length (filter is_processed pdb_file)]"
    using serials_all [of logic "cur_atom_number cur" pdb_file] by simp
  have 5: "cur_atom_number cur' = cur_atom_number cur + int (length (filter is_processed pdb_file))"
    using sp an by simp
  have 6: "cur_atom_number attrs_post_init = 1" by (simp add: attrs_post_init_def)
  show ?thesis using 1 2 3 4 5 6 by blast
qed

theorem atom_serials_witness:
  "serial_fields
     [HEADER,
      ''ATOM      1  P    DA A   1      11.104   6.134  -6.504  1.00  0.00      A001 P  '' @ [CHR 0x0A],
      TER, [],
      ''ATOM      3  OP1  DA A  11      11.104   6.134  -6.504  1.00  0.00      A001 O  '' @ [CHR 0x0A],
      TER @ ''END'' @ [CHR 0x0A]]
   = [number_to_hybrid36_number 1 5, number_to_hybrid36_number 3 5]
   \<and> number_to_hybrid36_number 3 5 = Inr ''    3''"
proof -
  let ?body = "[HEADER,
      ''ATOM      1  P    DA A   1      11.104   6.134  -6.504  1.00  0.00      A001 P  '' @ [CHR 0x0A],
      TER, [],
      ''ATOM      3  OP1  DA A  11      11.104   6.134  -6.504  1.00  0.00      A001 O  '' @ [CHR 0x0A],
      TER @ ''END'' @ [CHR 0x0A]]"
  let ?cur = "\<lparr>cur_atom_number = 4, old_molecule_number = 14, last_molecule_number = 11,
      chain_id = ''A'', chain_id_repeats = 1, cur_chain = Some ''S001''\<rparr>"
  have an: "atom_number Logic_default" by (simp add: Logic_default_def)
  have r: "correct_pdb_body attrs_post_init [rec_P, rec_H, rec_O] Logic_default = Inr (?body, ?cur)"
    by code_simp
  have s: "serials Logic_default (cur_atom_number attrs_post_init) [rec_P, rec_H, rec_O] = [1, 3]"
    by code_simp
  have "serial_fields ?body = [number_to_hybrid36_number 1 5, number_to_hybrid36_number 3 5]"
    using atom_serials [OF an r, THEN conjunct1] unfolding s by simp
  moreover have "number_to_hybrid36_number 3 5 = Inr ''    3''" by code_simp
  ultimately show ?thesis by simp
qed

text \<open>
  The claim as stated (dropped hydrogens consume no serial, emitted serials are
  consecutive) fails on three records of which the second is a hydrogen: the emitted
  serials are 1 and 3.
\<close>

theorem atom_serials_counterexample:
  "correct_pdb_body attrs_post_init [rec_P, rec_H, rec_O] Logic_default =
     Inr ([HEADER,
           ''ATOM      1  P    DA A   1      11.104   6.134  -6.504  1.00  0.00      A001 P  '' @ [CHR 0x0A],
           TER, [],
           ''ATOM      3  OP1  DA A  11      11.104   6.134  -6.504  1.00  0.00      A001 O  '' @ [CHR 0x0A],
           TER @ ''END'' @ [CHR 0x0A]],
          \<lparr>cur_atom_number = 4, old_molecule_number = 14, last_molecule_number = 11,
           chain_id = ''A'', chain_id_repeats = 1, cur_chain = Some ''S001''\<rparr>)
   \<and> serial_fields
        [HEADER,
         ''ATOM      1  P    DA A   1      11.104   6.134  -6.504  1.00  0.00      A001 P  '' @ [CHR 0x0A],
         TER, [],
         ''ATOM      3  OP1  DA A  11      11.104   6.134  -6.504  1.00  0.00      A001 O  '' @ [CHR 0x0A],
         TER @ ''END'' @ [CHR 0x0A]]
       = [Inr ''    1'', Inr ''    3'']
   \<and> is_processed rec_H \<and> is_hydrogen rec_H"
  by code_simp




text \<open>
  C10. With the chain correction and hydrogen removal enabled, an atom record that is
  processed and is a hydrogen is replaced by the empty string, and when the chain
  correction has marked a break at it the terminator is appended all the same, before the
  empty string. So the output can hold consecutive terminator lines: two hydrogens that
  each start a break, at the end of the input, give three terminator lines before the
  end marker, and one such hydrogen at the end gives the break terminator directly
  followed by the final terminator and end marker.
\<close>

theorem terminator_before_dropped_hydrogen:
  "(molecule_chain logic \<and> remove_H logic \<and> is_processed line \<and> is_hydrogen line
      \<and> correct_pdb_step logic line (cur, t, body) = Inr (cur', t', body')
     \<longrightarrow> (\<exists>b. t' = Some b) \<and> body' = body @ (if t' = Some True then [TER] else []) @ [[]])
   \<and> correct_pdb attrs_post_init [rec_P, rec_H, rec_H2] Logic_default =
       Inr (HEADER
            @ ''ATOM      1  P    DA A   1      11.104   6.134  -6.504  1.00  0.00      A001 P  '' @ [CHR 0x0A]
            @ TER @ TER @ TER @ ''END'' @ [CHR 0x0A],
            \<lparr>cur_atom_number = 4, old_molecule_number = 1, last_molecule_number = 1,
             chain_id = ''B'', chain_id_repeats = 1, cur_chain = Some ''S002''\<rparr>)
   \<and> correct_pdb attrs_post_init [rec_P, rec_H] Logic_default =
       Inr (HEADER
            @ ''ATOM      1  P    DA A   1      11.104   6.134  -6.504  1.00  0.00      A001 P  '' @ [CHR 0x0A]
            @ TER @ TER @ ''END'' @ [CHR 0x0A],
            \<lparr>cur_atom_number = 3, old_molecule_number = 14, last_molecule_number = 11,
             chain_id = ''A'', chain_id_repeats = 1, cur_chain = Some ''S001''\<rparr>)"
proof -
  have 1: "(\<exists>b. t' = Some b) \<and> body' = body @ (if t' = Some True then [TER] else []) @ [[]]"
    if h: "molecule_chain logic \<and> remove_H logic \<and> is_processed line \<and> is_hydrogen line
      \<and> correct_pdb_step logic line (cur, t, body) = Inr (cur', t', body')"
  proof -
    have mc: "molecule_chain logic" and rh: "remove_H logic" and hy: "is_hydrogen line"
      and a: "is_atom_record line" "slice 13 15 line \<noteq> ''  ''"
      and r: "correct_pdb_step logic line (cur, t, body) = Inr (cur', t', body')"
      using h by (simp_all add: is_processed_def)
    note step = correct_pdb_step_processed [OF a, of logic cur t body]
    obtain line6 is_ter2 cur3 where ca: "correct_atom logic line cur t = Inr (line6, is_ter2, cur3)"
      using r step by (cases "correct_atom logic line cur t") auto
    note sp = correct_atom_spec [OF mc a(1) ca]
    obtain b where b: "is_ter2 = Some b" using sp by blast
    have l6: "line6 = []" using sp rh hy by simp
    have "t' = Some b" "body' = body @ (if b then [TER] else []) @ [line6]"
      using r step ca b by simp_all
    then show ?thesis using l6 by simp
  qed
  have 2: "correct_pdb attrs_post_init [rec_P, rec_H, rec_H2] Logic_default =
       Inr (HEADER
            @ ''ATOM      1  P    DA A   1      11.104   6.134  -6.504  1.00  0.00      A001 P  '' @ [CHR 0x0A]
            @ TER @ TER @ TER @ ''END'' @ [CHR 0x0A],
            \<lparr>cur_atom_number = 4, old_molecule_number = 1, last_molecule_number = 1,
             chain_id = ''B'', chain_id_repeats = 1, cur_chain = Some ''S002''\<rparr>)"
    by code_simp
  have 3: "correct_pdb attrs_post_init [rec_P, rec_H] Logic_default =
       Inr (HEADER
            @ ''ATOM      1  P    DA A   1      11.104   6.134  -6.504  1.00  0.00      A001 P  '' @ [CHR 0x0A]
            @ TER @ TER @ ''END'' @ [CHR 0x0A],
            \<lparr>cur_atom_number = 3, old_molecule_number = 14, last_molecule_number = 11,
             chain_id = ''A'', chain_id_repeats = 1, cur_chain = Some ''S001''\<rparr>)"
    by code_simp
  show ?thesis using 1 2 3 by blast
qed

theorem terminator_before_dropped_hydrogen_witness:
  "correct_pdb_step Logic_default rec_H (cur_after_P, Some False, [HEADER]) =
     Inr (\<lparr>cur_atom_number = 3, old_molecule_number = 14, last_molecule_number = 11,
           chain_id = ''A'', chain_id_repeats = 1, cur_chain = Some ''S001''\<rparr>,
          Some True, [HEADER, TER, []])"
proof -
  let ?c = "\<lparr>cur_atom_number = 3, old_molecule_number = 14, last_molecule_number = 11,
           chain_id = ''A'', chain_id_repeats = 1, cur_chain = Some ''S001''\<rparr>"
  have f: "molecule_chain Logic_default" "remove_H Logic_default"
    by (simp_all add: Logic_default_def)
  have p: "is_processed rec_H" "is_hydrogen rec_H" by code_simp+
  have r: "correct_pdb_step Logic_default rec_H (cur_after_P, Some False, [HEADER]) =
     Inr (?c, Some True, [HEADER] @ [TER] @ [[]])"
    by code_simp
  have h: "molecule_chain Logic_default \<and> remove_H Logic_default \<and> is_processed rec_H
      \<and> is_hydrogen rec_H
      \<and> correct_pdb_step Logic_default rec_H (cur_after_P, Some False, [HEADER])
          = Inr (?c, Some True, [HEADER] @ [TER] @ [[]])"
    using f p r by simp
  have "(\<exists>b. Some True = Some b)
      \<and> [HEADER] @ [TER] @ [[]] = [HEADER] @ (if Some True = Some True then [TER] else []) @ [[]]"
    by (rule terminator_before_dropped_hydrogen [THEN conjunct1, rule_format, OF h])
  then show ?thesis using r by simp
qed

end
